theory Spec2Isabelle
  imports Complex_Main "HOL-Library.Multiset"
begin

section \<open>The download queue (class DownloadQueue)\<close>

text \<open>
  The queue object is a record of the fields the constructor sets. Task objects are
  shared by reference between the four collections and the running continuations, so
  they live in a store (\<open>tasks\<close>) and the collections hold their keys. A task's
  \<open>id\<close> (in the source a string made from the clock and a random suffix) is modelled
  as the number of the submission, which is also its key in the store. Dates and the
  progress sub-object of a task are left out: no operation below reads them.

  The numbers the constructor takes from its options are kept as they are requested,
  whole or not, so they are rationals (\<open>rat\<close>), as are the durations in milliseconds;
  \<open>NaN\<close> behaves as an absent option and \<open>Infinity\<close> as any value above the cap. The
  attempts counter of a task only ever counts up from 0 and is an \<open>int\<close>.
\<close>

datatype status = Queued | Downloading | Completed | Failed

record task =
  task_id :: nat
  url :: string
  channel :: "string option"
  outputDirectory :: "string option"
  audioStream :: string
  videoSize :: string
  format :: string
  internationalAudio :: "string option"
  itsoffset :: string
  attempts :: int
  status :: status
  error :: "string option"

record downloadConfig =
  cfg_url :: string
  cfg_channel :: "string option"
  cfg_outputDirectory :: "string option"
  cfg_audioStream :: "string option"
  cfg_videoSize :: "string option"
  cfg_format :: "string option"
  cfg_internationalAudio :: "string option"
  cfg_itsoffset :: "string option"

record options =
  opt_maxConcurrent :: "rat option"
  opt_delay :: "rat option"
  opt_retryAttempts :: "rat option"
  opt_retryDelay :: "rat option"
  opt_rateLimitBackoff :: "rat option"

record stats =
  totalQueued :: nat
  stats_completed :: nat
  stats_failed :: nat
  bytesDownloaded :: nat
  averageSpeed :: nat

text \<open>The error object a rejected promise carries: its message and, when the error has
  a \<open>response\<close>, that response's HTTP status.\<close>

record err =
  message :: string
  response_status :: "int option"

datatype event =
    TaskAdded nat
  | TaskStarted nat
  | TaskCompleted nat
  | TaskFailed nat
  | QueueStarted
  | QueueStopped
  | QueuePaused
  | QueueResumed
  | QueueCompleted nat nat nat

text \<open>
  A suspended invocation of \<open>processTask\<close> waits at one of its \<open>await\<close>s (or at one
  inside \<open>handleTaskError\<close>, which it awaits). The timers carry their duration.
\<close>

datatype pc =
    AwaitContentInfo
  | AwaitTokenizedUrl
  | AwaitDownloadVideo
  | SleepRateLimit rat
  | SleepRetry rat
  | AwaitHandleTaskError
  | SleepFinal rat

datatype outcome = Resolved | Rejected err

record dq =
  maxConcurrent :: rat
  delayBetweenDownloads :: rat
  retryAttempts :: rat
  retryDelay :: rat
  rateLimitBackoff :: rat
  queue :: "nat list"
  active :: "nat list"
  completed :: "nat list"
  failed :: "nat list"
  isRunning :: bool
  isPaused :: bool
  stats :: stats
  tasks :: "nat \<rightharpoonup> task"
  nextId :: nat
  conts :: "(nat \<times> pc) list"
  loop_timers :: "rat list"
  events :: "event list"

record status_report =
  rep_isRunning :: bool
  rep_isPaused :: bool
  queueLength :: nat
  activeDownloads :: nat
  completedDownloads :: nat
  failedDownloads :: nat
  rep_stats :: stats
  rep_maxConcurrent :: rat
  rep_delayBetweenDownloads :: rat

datatype queue_error = InvalidF1TVURL string

subsection \<open>Constructor\<close>

text \<open>\<open>v || d\<close> on an optional number: the default replaces an absent value and zero.\<close>

definition js_or :: "'a::zero option \<Rightarrow> 'a \<Rightarrow> 'a" where
  "js_or v d = (case v of None \<Rightarrow> d | Some x \<Rightarrow> if x = 0 then d else x)"

text \<open>\<open>v || d\<close> on an optional string: the default replaces an absent value and \<open>''\<close>.\<close>

definition js_or_str :: "string option \<Rightarrow> string \<Rightarrow> string" where
  "js_or_str v d = (case v of None \<Rightarrow> d | Some x \<Rightarrow> if x = [] then d else x)"

definition constructor :: "options \<Rightarrow> dq" where
  "constructor opts =
     \<lparr> maxConcurrent = min (js_or (opt_maxConcurrent opts) 1) 3,
       delayBetweenDownloads = js_or (opt_delay opts) 30 * 1000,
       retryAttempts = js_or (opt_retryAttempts opts) 3,
       retryDelay = js_or (opt_retryDelay opts) 5000,
       rateLimitBackoff = js_or (opt_rateLimitBackoff opts) 60000,
       queue = [],
       active = [],
       completed = [],
       failed = [],
       isRunning = False,
       isPaused = False,
       stats = \<lparr> totalQueued = 0, stats_completed = 0, stats_failed = 0,
                 bytesDownloaded = 0, averageSpeed = 0 \<rparr>,
       tasks = Map.empty,
       nextId = 0,
       conts = [],
       loop_timers = [],
       events = [] \<rparr>"

subsection \<open>Status and history\<close>

definition getStatus :: "dq \<Rightarrow> status_report" where
  "getStatus s =
     \<lparr> rep_isRunning = isRunning s,
       rep_isPaused = isPaused s,
       queueLength = length (queue s),
       activeDownloads = length (active s),
       completedDownloads = length (completed s),
       failedDownloads = length (failed s),
       rep_stats = stats s,
       rep_maxConcurrent = maxConcurrent s,
       rep_delayBetweenDownloads = delayBetweenDownloads s \<rparr>"

definition clearHistory :: "dq \<Rightarrow> dq" where
  "clearHistory s = s\<lparr> completed := [], failed := [] \<rparr>"

subsection \<open>Running one task: processTask and handleTaskError\<close>

definition emit :: "event \<Rightarrow> dq \<Rightarrow> dq" where
  "emit e s = s\<lparr> events := events s @ [e] \<rparr>"

definition upd_task :: "nat \<Rightarrow> (task \<Rightarrow> task) \<Rightarrow> dq \<Rightarrow> dq" where
  "upd_task t f s = s\<lparr> tasks := (tasks s)(t := map_option f (tasks s t)) \<rparr>"

definition task_attempts :: "dq \<Rightarrow> nat \<Rightarrow> int" where
  "task_attempts s t = (case tasks s t of None \<Rightarrow> 0 | Some k \<Rightarrow> attempts k)"

definition task_status :: "dq \<Rightarrow> nat \<Rightarrow> status option" where
  "task_status s t = map_option status (tasks s t)"

text \<open>
  The synchronous start of \<open>processTask\<close>, up to its first \<open>await\<close>
  (\<open>getContentInfo\<close>): the task is marked as downloading, its attempts are counted,
  and the invocation is suspended. (The log line in between reads the name out of the
  url, which \<open>addDownload\<close> has validated; it is taken not to throw.)
\<close>

definition processTask :: "nat \<Rightarrow> dq \<Rightarrow> dq" where
  "processTask t s =
     (let s1 = upd_task t (\<lambda>k. k\<lparr> status := Downloading, attempts := attempts k + 1 \<rparr>) s;
          s2 = emit (TaskStarted t) s1
      in s2\<lparr> conts := conts s2 @ [(t, AwaitContentInfo)] \<rparr>)"

text \<open>
  The \<open>finally\<close> block of \<open>processTask\<close>: the first entry of \<open>active\<close> with the task's
  id is spliced out; when nothing is active and something is pending, the invocation
  sleeps \<open>delayBetweenDownloads\<close> before it ends. The result is the new state and where
  the invocation waits next, if it does.
\<close>

definition processTask_finally :: "nat \<Rightarrow> dq \<Rightarrow> dq \<times> pc option" where
  "processTask_finally t s =
     (let s1 = s\<lparr> active := remove1 t (active s) \<rparr>
      in if active s1 = [] \<and> queue s1 \<noteq> []
         then (s1, Some (SleepFinal (delayBetweenDownloads s1)))
         else (s1, None))"

text \<open>The success path of \<open>processTask\<close> after \<open>downloadVideo\<close> has resolved; it runs
  into the \<open>finally\<close> block without suspending.\<close>

definition processTask_success :: "nat \<Rightarrow> dq \<Rightarrow> dq \<times> pc option" where
  "processTask_success t s =
     (let s1 = upd_task t (\<lambda>k. k\<lparr> status := Completed \<rparr>) s;
          s2 = s1\<lparr> completed := completed s1 @ [t] \<rparr>;
          s3 = s2\<lparr> stats := (stats s2)\<lparr> stats_completed := stats_completed (stats s2) + 1 \<rparr> \<rparr>;
          s4 = emit (TaskCompleted t) s3
      in processTask_finally t s4)"

text \<open>The sleep before an ordinary retry: \<open>this.retryDelay * Math.pow(2, task.attempts - 1)\<close>.\<close>

definition retry_sleep :: "dq \<Rightarrow> nat \<Rightarrow> rat" where
  "retry_sleep s t = retryDelay s * 2 powi (task_attempts s t - 1)"

text \<open>
  \<open>handleTaskError\<close> from the comment ``Retry logic for other errors'' on: either the
  task sleeps before its retry, or it is moved to \<open>failed\<close> and the handler returns, which
  leaves \<open>processTask\<close> suspended at its \<open>await this.handleTaskError(...)\<close>.
\<close>

definition handleTaskError_retry :: "nat \<Rightarrow> dq \<Rightarrow> dq \<times> pc option" where
  "handleTaskError_retry t s =
     (if of_int (task_attempts s t) < retryAttempts s
      then (s, Some (SleepRetry (retry_sleep s t)))
      else
        (let s1 = upd_task t (\<lambda>k. k\<lparr> status := Failed \<rparr>) s;
             s2 = s1\<lparr> failed := failed s1 @ [t] \<rparr>;
             s3 = s2\<lparr> stats := (stats s2)\<lparr> stats_failed := stats_failed (stats s2) + 1 \<rparr> \<rparr>;
             s4 = emit (TaskFailed t) s3
         in (s4, Some AwaitHandleTaskError)))"

text \<open>\<open>handleTaskError\<close> from its entry to its first suspension or its return.\<close>

definition handleTaskError :: "nat \<Rightarrow> err \<Rightarrow> dq \<Rightarrow> dq \<times> pc option" where
  "handleTaskError t e s =
     (let s1 = upd_task t (\<lambda>k. k\<lparr> error := Some (message e) \<rparr>) s
      in if response_status e = Some 429
         then (s1, Some (SleepRateLimit (rateLimitBackoff s1)))
         else handleTaskError_retry t s1)"

text \<open>\<open>handleTaskError\<close> after the rate-limit sleep.\<close>

definition handleTaskError_after_rateLimit :: "nat \<Rightarrow> dq \<Rightarrow> dq \<times> pc option" where
  "handleTaskError_after_rateLimit t s =
     (if of_int (task_attempts s t) < retryAttempts s
      then (s\<lparr> queue := t # queue s \<rparr>, Some AwaitHandleTaskError)
      else handleTaskError_retry t s)"

text \<open>\<open>handleTaskError\<close> after the retry sleep.\<close>

definition handleTaskError_after_retry :: "nat \<Rightarrow> dq \<Rightarrow> dq \<times> pc option" where
  "handleTaskError_after_retry t s = (s\<lparr> queue := t # queue s \<rparr>, Some AwaitHandleTaskError)"

text \<open>
  One resumption of a suspended \<open>processTask\<close> invocation: the code from the \<open>await\<close>
  it waits at to the next one. A rejected promise (and any exception thrown in the
  \<open>try\<close> block) enters the \<open>catch\<close> clause; timers only resolve.
\<close>

fun resume :: "nat \<Rightarrow> pc \<Rightarrow> outcome \<Rightarrow> dq \<Rightarrow> dq \<times> pc option" where
  "resume t AwaitContentInfo Resolved s = (s, Some AwaitTokenizedUrl)"
| "resume t AwaitContentInfo (Rejected e) s = handleTaskError t e s"
| "resume t AwaitTokenizedUrl Resolved s = (s, Some AwaitDownloadVideo)"
| "resume t AwaitTokenizedUrl (Rejected e) s = handleTaskError t e s"
| "resume t AwaitDownloadVideo Resolved s = processTask_success t s"
| "resume t AwaitDownloadVideo (Rejected e) s = handleTaskError t e s"
| "resume t (SleepRateLimit d) _ s = handleTaskError_after_rateLimit t s"
| "resume t (SleepRetry d) _ s = handleTaskError_after_retry t s"
| "resume t AwaitHandleTaskError _ s = processTask_finally t s"
| "resume t (SleepFinal d) _ s = (s, None)"

text \<open>Resuming the \<open>k\<close>-th suspended invocation; its entry is replaced or, when the
  invocation has ended, removed.\<close>

definition resume_cont :: "nat \<Rightarrow> outcome \<Rightarrow> dq \<Rightarrow> dq" where
  "resume_cont k out s =
     (if k < length (conts s)
      then (case conts s ! k of (t, p) \<Rightarrow>
              (case resume t p out s of
                 (s', Some p') \<Rightarrow> s'\<lparr> conts := (conts s')[k := (t, p')] \<rparr>
               | (s', None) \<Rightarrow> s'\<lparr> conts := take k (conts s') @ drop (Suc k) (conts s') \<rparr>))
      else s)"

subsection \<open>The scheduling loop: processQueue and finishQueue\<close>

definition finishQueue :: "dq \<Rightarrow> dq" where
  "finishQueue s =
     (let s1 = s\<lparr> isRunning := False \<rparr>
      in emit (QueueCompleted (stats_completed (stats s1)) (stats_failed (stats s1))
                 (totalQueued (stats s1))) s1)"

text \<open>The loop suspends on a timer; the invocation is remembered with the timer's
  duration.\<close>

definition sleep_loop :: "rat \<Rightarrow> dq \<Rightarrow> dq" where
  "sleep_loop d s = s\<lparr> loop_timers := loop_timers s @ [d] \<rparr>"

text \<open>
  \<open>processQueue\<close> from the head of its \<open>while\<close> loop to its next suspension or to its
  end. Starting a task does not suspend the loop, so one run may pass the loop head
  several times.
\<close>

function processQueue :: "dq \<Rightarrow> dq" where
  "processQueue s =
     (if \<not> isRunning s then finishQueue s
      else if isPaused s then sleep_loop 1000 s
      else if of_nat (length (active s)) < maxConcurrent s \<and> queue s \<noteq> [] then
        (let t = hd (queue s);
             s1 = s\<lparr> queue := tl (queue s) \<rparr>;
             s2 = s1\<lparr> active := active s1 @ [t] \<rparr>;
             s3 = processTask t s2
         in if queue s3 \<noteq> [] \<and> maxConcurrent s3 > 1
            then sleep_loop (min (delayBetweenDownloads s3 / 2) 10000) s3
            else processQueue s3)
      else if active s = [] \<and> queue s = [] then finishQueue s
      else sleep_loop 1000 s)"
  by pat_completeness auto
termination
  by (relation "measure (\<lambda>s. length (queue s))")
     (auto simp: processTask_def upd_task_def emit_def Let_def)

declare processQueue.simps [simp del]

subsection \<open>The public operations\<close>

definition start :: "dq \<Rightarrow> dq" where
  "start s =
     (if isRunning s then s
      else processQueue (emit QueueStarted (s\<lparr> isRunning := True, isPaused := False \<rparr>)))"

definition stop :: "dq \<Rightarrow> dq" where
  "stop s = emit QueueStopped (s\<lparr> isRunning := False \<rparr>)"

definition pause :: "dq \<Rightarrow> dq" where
  "pause s = emit QueuePaused (s\<lparr> isPaused := True \<rparr>)"

definition resume_queue :: "dq \<Rightarrow> dq" where
  "resume_queue s = processQueue (emit QueueResumed (s\<lparr> isPaused := False \<rparr>))"

text \<open>
  \<open>addDownload\<close>: the validator \<open>isF1tvUrl\<close> is not part of the class and is a
  parameter. The new task gets the next free id.
\<close>

definition new_task :: "nat \<Rightarrow> downloadConfig \<Rightarrow> task" where
  "new_task i c =
     \<lparr> task_id = i,
       url = cfg_url c,
       channel = cfg_channel c,
       outputDirectory = cfg_outputDirectory c,
       audioStream = js_or_str (cfg_audioStream c) ''eng'',
       videoSize = js_or_str (cfg_videoSize c) ''best'',
       format = js_or_str (cfg_format c) ''mp4'',
       internationalAudio = cfg_internationalAudio c,
       itsoffset = js_or_str (cfg_itsoffset c) ''-00:00:04.750'',
       attempts = 0,
       status = Queued,
       error = None \<rparr>"

definition addDownload :: "(string \<Rightarrow> bool) \<Rightarrow> downloadConfig \<Rightarrow> dq \<Rightarrow> queue_error + (dq \<times> nat)" where
  "addDownload isF1tvUrl c s =
     (let i = nextId s; k = new_task i c
      in if \<not> isF1tvUrl (url k) then Inl (InvalidF1TVURL (url k))
         else
           (let s1 = s\<lparr> tasks := (tasks s)(i \<mapsto> k), nextId := Suc i \<rparr>;
                s2 = s1\<lparr> queue := queue s1 @ [i] \<rparr>;
                s3 = s2\<lparr> stats := (stats s2)\<lparr> totalQueued := totalQueued (stats s2) + 1 \<rparr> \<rparr>;
                s4 = emit (TaskAdded i) s3;
                s5 = (if \<not> isRunning s4 then start s4 else s4)
            in Inr (s5, i)))"

subsection \<open>Observable instants\<close>

text \<open>
  The code runs on a single-threaded event loop: between two suspension points nothing
  else runs. An observable instant is therefore the state after a whole number of
  atomic actions: a call of a public operation, the wake-up of a suspended scheduling
  loop, or the resumption of a suspended task invocation. Which suspended computation
  runs next, and whether an external call resolves or rejects, is decided by the
  environment. Every \<open>await\<close> is a point where another suspended computation may run
  first, also the one at which \<open>processTask\<close> waits for \<open>handleTaskError\<close> to return.
  Event listeners are taken not to call back into the queue.
\<close>

datatype action =
    AddDownload downloadConfig
  | Start
  | Stop
  | Pause
  | Resume
  | ClearHistory
  | WakeLoop nat
  | ResumeTask nat outcome

definition wake_loop :: "nat \<Rightarrow> dq \<Rightarrow> dq" where
  "wake_loop k s =
     (if k < length (loop_timers s)
      then processQueue (s\<lparr> loop_timers := take k (loop_timers s) @ drop (Suc k) (loop_timers s) \<rparr>)
      else s)"

fun fire :: "(string \<Rightarrow> bool) \<Rightarrow> action \<Rightarrow> dq \<Rightarrow> dq" where
  "fire v (AddDownload c) s = (case addDownload v c s of Inl _ \<Rightarrow> s | Inr (s', _) \<Rightarrow> s')"
| "fire v Start s = start s"
| "fire v Stop s = stop s"
| "fire v Pause s = pause s"
| "fire v Resume s = resume_queue s"
| "fire v ClearHistory s = clearHistory s"
| "fire v (WakeLoop k) s = wake_loop k s"
| "fire v (ResumeTask k out) s = resume_cont k out s"

text \<open>The state after a sequence of actions on a freshly constructed queue.\<close>

definition run :: "(string \<Rightarrow> bool) \<Rightarrow> options \<Rightarrow> action list \<Rightarrow> dq" where
  "run v opts as = foldl (\<lambda>s a. fire v a s) (constructor opts) as"

section \<open>Building the ffmpeg command (DownloadQueue.downloadVideo)\<close>

text \<open>
  \<open>downloadVideo\<close> computes the inputs and the output options it hands to ffmpeg. The
  calls it awaits on the way (\<open>getProgramStreamId\<close>, \<open>getTokenizedUrl\<close>) and the
  predicate \<open>isRace\<close> belong to other modules; they are parameters, and a call that
  rejects makes \<open>downloadVideo\<close> reject with the same error. Track ids are natural
  numbers, printed in decimal by \<open>%i\<close> and by template strings alike.
\<close>

record stream_ids =
  videoId :: nat
  audioId :: nat

record ffmpeg_command =
  inputs :: "(string \<times> string list) list"
  outputOptions :: "string list"

definition digit :: "nat \<Rightarrow> char" where
  "digit d = ''0123456789'' ! d"

fun dec :: "nat \<Rightarrow> string" where
  "dec n = (if n < 10 then [digit n] else dec (n div 10) @ [digit (n mod 10)])"

declare dec.simps [simp del]

text \<open>\<open>util.format(f, n)\<close> for a format with \<open>%i\<close> placeholders and one argument: the
  first placeholder is replaced by the number, the rest of the format is kept.\<close>

fun util_format :: "string \<Rightarrow> nat \<Rightarrow> string" where
  "util_format [] n = []"
| "util_format [c] n = [c]"
| "util_format (c # d # cs) n =
     (if c = CHR ''%'' \<and> d = CHR ''i'' then dec n @ cs else c # util_format (d # cs) n)"

definition starts_with :: "string \<Rightarrow> string \<Rightarrow> bool" where
  "starts_with p s = (take (length p) s = p)"

text \<open>\<open>s.indexOf(p) != -1\<close>\<close>

fun has_substring :: "string \<Rightarrow> string \<Rightarrow> bool" where
  "has_substring p [] = (p = [])"
| "has_substring p (c # cs) = (starts_with p (c # cs) \<or> has_substring p cs)"

definition inputOptions :: "string list" where
  "inputOptions = [''-probesize'', ''24M'', ''-analyzeduration'', ''6M'', ''-rtbufsize'', ''2147M'']"

definition videoSelectString :: "bool \<Rightarrow> nat \<Rightarrow> string" where
  "videoSelectString useDash programStream =
     util_format (if useDash then ''0:v:m:id:%i'' else ''0:p:%i:v'') programStream"

definition audioSelectString :: "bool \<Rightarrow> nat \<Rightarrow> string" where
  "audioSelectString useDash programStream =
     (if useDash then ''0:a'' else ''0:p:'' @ dec programStream @ '':a'')"

definition intlVideoSelectString :: "bool \<Rightarrow> nat \<Rightarrow> string" where
  "intlVideoSelectString useDash intlVideoId =
     util_format (if useDash then ''1:v:m:id:%i'' else ''1:p:%i:v'') intlVideoId"

definition intlAudioSelectString :: "bool \<Rightarrow> nat \<Rightarrow> nat \<Rightarrow> string" where
  "intlAudioSelectString useDash programStream intlAudioId =
     util_format (if useDash then ''1:a:m:id:%i'' else ''1:p:'' @ dec programStream @ '':a:%i'')
       intlAudioId"

definition intlLangId :: "string \<Rightarrow> string" where
  "intlLangId lang = (if lang = ''eng'' then ''Sky'' else lang)"

text \<open>The output options, from the video selector, the audio mapping and the audio
  codec parameters.\<close>

definition output_options :: "string \<Rightarrow> string \<Rightarrow> string list \<Rightarrow> string list \<Rightarrow> string list" where
  "output_options fmt videoSel audioStreamMapping audioCodecParameters =
     (if fmt = ''mp4''
      then [''-map'', videoSel] @ audioStreamMapping @ [''-c:v'', ''copy''] @ audioCodecParameters
           @ [''-bsf:a'', ''aac_adtstoasc'', ''-movflags'', ''faststart'', ''-y'']
      else [''-map'', videoSel] @ audioStreamMapping @ [''-c:v'', ''copy''] @ audioCodecParameters
           @ [''-y''])"

text \<open>
  \<open>downloadVideo\<close> up to the ffmpeg command it builds. \<open>getProgramStreamId\<close> takes the
  stream url, the audio language and the video size; \<open>getIntlUrl\<close> stands for
  \<open>this.getTokenizedUrl(task.url, content, 'INTERNATIONAL')\<close>.
\<close>

definition downloadVideo ::
  "task \<Rightarrow> string \<Rightarrow> bool \<Rightarrow> (string \<Rightarrow> string \<Rightarrow> string \<Rightarrow> err + stream_ids) \<Rightarrow> (err + string)
     \<Rightarrow> err + ffmpeg_command" where
  "downloadVideo k f1tvUrl isRace getProgramStreamId getIntlUrl =
     (let useDash = \<not> has_substring ''m3u8'' f1tvUrl;
          includeInternationalAudio = (internationalAudio k \<noteq> None)
      in case getProgramStreamId f1tvUrl (audioStream k) (videoSize k) of
           Inl e \<Rightarrow> Inl e
         | Inr plDetails \<Rightarrow>
             (let programStream = videoId plDetails;
                  videoSel = videoSelectString useDash programStream;
                  audioSel = audioSelectString useDash programStream
              in if includeInternationalAudio \<and> isRace
                 then
                   (let lang = the (internationalAudio k)
                    in case getIntlUrl of
                         Inl e \<Rightarrow> Inl e
                       | Inr intlUrl \<Rightarrow>
                           (case getProgramStreamId intlUrl lang ''480x270'' of
                              Inl e \<Rightarrow> Inl e
                            | Inr intlDetails \<Rightarrow>
                                Inr \<lparr> inputs =
                                        [(f1tvUrl, inputOptions),
                                         (intlUrl, inputOptions @ [''-itsoffset'', itsoffset k])],
                                      outputOptions =
                                        output_options (format k) videoSel
                                          [''-map'', intlVideoSelectString useDash (videoId intlDetails),
                                           ''-map'', audioSel,
                                           ''-map'', intlAudioSelectString useDash programStream
                                                       (audioId intlDetails)]
                                          [''-c:a'', ''copy'',
                                           ''-metadata:s:a:0'', ''language=eng'',
                                           ''-disposition:a:0'', ''default'',
                                           ''-metadata:s:a:1'', ''language='' @ intlLangId lang,
                                           ''-disposition:a:1'', ''0''] \<rparr>))
                 else
                   Inr \<lparr> inputs = [(f1tvUrl, inputOptions)],
                         outputOptions =
                           output_options (format k) videoSel [''-map'', audioSel]
                             [''-c:a'', ''copy''] \<rparr>))"

subsection \<open>Reading an option list\<close>

text \<open>The arguments of the \<open>-map\<close> options of an option list, in order.\<close>

fun map_args :: "string list \<Rightarrow> string list" where
  "map_args (a # b # rest) = (if a = ''-map'' then b # map_args rest else map_args (b # rest))"
| "map_args _ = []"


text \<open>
  A stream selector is a list of fields separated by colons: the input index, then
  stream specifiers, among them the stream type \<open>v\<close> or \<open>a\<close>.
\<close>

fun split_on :: "char \<Rightarrow> string \<Rightarrow> string list" where
  "split_on c [] = [[]]"
| "split_on c (x # xs) =
     (if x = c then [] # split_on c xs
      else (case split_on c xs of [] \<Rightarrow> [[x]] | w # ws \<Rightarrow> (x # w) # ws))"

definition selects_audio :: "string \<Rightarrow> bool" where
  "selects_audio sel = (''a'' \<in> set (tl (split_on CHR '':'' sel)))"

definition selects_video :: "string \<Rightarrow> bool" where
  "selects_video sel = (''v'' \<in> set (tl (split_on CHR '':'' sel)))"

definition input_index :: "string \<Rightarrow> string" where
  "input_index sel = hd (split_on CHR '':'' sel)"

text \<open>The four kinds of map directive the specification names.\<close>

datatype directive = PrimaryVideo | PrimaryAudio | SecondaryVideo | SecondaryAudio | Other

definition directive_of :: "string \<Rightarrow> directive" where
  "directive_of sel =
     (if input_index sel = ''0'' \<and> selects_video sel then PrimaryVideo
      else if input_index sel = ''0'' \<and> selects_audio sel then PrimaryAudio
      else if input_index sel = ''1'' \<and> selects_video sel then SecondaryVideo
      else if input_index sel = ''1'' \<and> selects_audio sel then SecondaryAudio
      else Other)"

section \<open>The token manager (class TokenManager)\<close>

text \<open>
  The file system, the clock and the network are the environment of the token
  manager. A call into another module either throws or returns.
\<close>

datatype 'a js_result = Throws | Returns 'a

record tokenData =
  token :: string
  source :: string
  timestamp :: int
  expires :: "int option"

text \<open>The cache file: absent, unreadable as JSON, or holding a record. \<open>timestamp\<close> is
  in milliseconds, \<open>expires\<close> in seconds (\<open>None\<close> for \<open>null\<close>).\<close>

datatype cache_file = NoFile | Unparsable | Parsed tokenData

text \<open>The manual cookie file: absent, unreadable, or an object whose
  \<open>entitlement_token\<close> may be missing.\<close>

datatype cookie_file = NoCookieFile | BadCookieFile | Cookies "string option"

text \<open>The place in \<open>getValidToken\<close> a credential comes from; the automated login counts
  its attempts from 1.\<close>

datatype strategy = Cache | BrowserAutoExtract | ManualCookieFile | AutomatedLogin nat

record world =
  now :: int
  saveTime :: int
  cacheWritable :: bool
  jwt_exp :: "string \<Rightarrow> int option"
  api_response :: "strategy \<Rightarrow> string \<Rightarrow> int js_result"
  autoExtractF1TVCookies :: "string option js_result"
  manualCookies :: cookie_file
  getF1tvToken :: "nat \<Rightarrow> string option js_result"

text \<open>The mutable state: the cache file, \<open>this.retryDelay\<close>, and the sleeps taken.\<close>

record tm_state =
  tokenCache :: cache_file
  tm_retryDelay :: rat
  slept :: "rat list"

datatype auth_error = AllStrategiesFailed

definition maxRetries :: nat where
  "maxRetries = 3"

text \<open>JavaScript truthiness of an optional string: \<open>null\<close>, \<open>undefined\<close> and \<open>''\<close> are
  falsy.\<close>

definition truthy :: "string option \<Rightarrow> bool" where
  "truthy v = (case v of None \<Rightarrow> False | Some x \<Rightarrow> x \<noteq> [])"

text \<open>\<open>extractTokenExpiry\<close>: \<open>jwt_exp\<close> gives the \<open>exp\<close> field of the decoded payload,
  \<open>None\<close> when decoding fails or the field is missing; \<open>decoded.exp || null\<close> turns
  zero into \<open>null\<close>.\<close>

definition extractTokenExpiry :: "world \<Rightarrow> string \<Rightarrow> int option" where
  "extractTokenExpiry w tok =
     (case jwt_exp w tok of None \<Rightarrow> None | Some e \<Rightarrow> if e = 0 then None else Some e)"

text \<open>\<open>saveTokenToCache\<close>: a failing write is caught and only logged.\<close>

definition saveTokenToCache :: "world \<Rightarrow> string \<Rightarrow> string \<Rightarrow> tm_state \<Rightarrow> tm_state" where
  "saveTokenToCache w tok src st =
     (if cacheWritable w
      then st\<lparr> tokenCache := Parsed \<lparr> token = tok, source = src, timestamp = saveTime w,
                                       expires = extractTokenExpiry w tok \<rparr> \<rparr>
      else st)"

definition loadTokenFromCache :: "cache_file \<Rightarrow> int \<Rightarrow> string option" where
  "loadTokenFromCache f t =
     (case f of
        NoFile \<Rightarrow> None
      | Unparsable \<Rightarrow> None
      | Parsed d \<Rightarrow>
          if (case expires d of None \<Rightarrow> False | Some e \<Rightarrow> e \<noteq> 0 \<and> e * 1000 < t + 300000)
          then None
          else if t - timestamp d > 24 * 60 * 60 * 1000 then None
          else Some (token d))"

definition validateToken :: "world \<Rightarrow> strategy \<Rightarrow> string \<Rightarrow> bool" where
  "validateToken w site tok =
     (case api_response w site tok of Throws \<Rightarrow> False | Returns code \<Rightarrow> code = 200)"

definition loadManualCookie :: "world \<Rightarrow> string option" where
  "loadManualCookie w =
     (case manualCookies w of
        NoCookieFile \<Rightarrow> None
      | BadCookieFile \<Rightarrow> None
      | Cookies c \<Rightarrow> if truthy c then c else None)"

text \<open>
  Strategy 4, the loop \<open>for (attempt = 1; attempt <= maxRetries; attempt++)\<close>, with the
  number of iterations left as its first argument. A login that throws is followed by
  a sleep unless it was the last attempt; a login whose token is rejected is not.
\<close>

fun login_loop :: "nat \<Rightarrow> world \<Rightarrow> nat \<Rightarrow> tm_state \<Rightarrow> (auth_error + string) \<times> tm_state" where
  "login_loop 0 w attempt st = (Inl AllStrategiesFailed, st)"
| "login_loop (Suc r) w attempt st =
     (case getF1tvToken w attempt of
        Returns loginToken \<Rightarrow>
          if truthy loginToken \<and> validateToken w (AutomatedLogin attempt) (the loginToken)
          then (Inr (the loginToken), saveTokenToCache w (the loginToken) ''automated-login'' st)
          else login_loop r w (Suc attempt) st
      | Throws \<Rightarrow>
          if attempt < maxRetries
          then login_loop r w (Suc attempt)
                 (st\<lparr> slept := slept st @ [tm_retryDelay st],
                      tm_retryDelay := tm_retryDelay st * (3 / 2) \<rparr>)
          else login_loop r w (Suc attempt) st)"

definition getValidToken ::
  "world \<Rightarrow> string option \<Rightarrow> string option \<Rightarrow> tm_state \<Rightarrow> (auth_error + string) \<times> tm_state" where
  "getValidToken w user pass st =
     (let cachedToken = loadTokenFromCache (tokenCache st) (now w)
      in if truthy cachedToken \<and> validateToken w Cache (the cachedToken)
         then (Inr (the cachedToken), st)
         else
           (let autoToken = (case autoExtractF1TVCookies w of Throws \<Rightarrow> None | Returns a \<Rightarrow> a)
            in if truthy autoToken \<and> validateToken w BrowserAutoExtract (the autoToken)
               then (Inr (the autoToken),
                     saveTokenToCache w (the autoToken) ''browser-auto-extract'' st)
               else
                 (let manualToken = loadManualCookie w
                  in if truthy manualToken \<and> validateToken w ManualCookieFile (the manualToken)
                     then (Inr (the manualToken),
                           saveTokenToCache w (the manualToken) ''manual-cookie-file'' st)
                     else if truthy user \<and> truthy pass
                     then login_loop maxRetries w 1 st
                     else (Inl AllStrategiesFailed, st))))"

text \<open>
  The specification's reading of \<open>getValidToken\<close>: every strategy offers at most one
  candidate credential per try, the candidates are taken in the fixed order cache,
  browser extraction, manual cookie file, automated login (attempts 1 to 3), and the
  first one that passes the liveness check is accepted.
\<close>

definition offer :: "strategy \<Rightarrow> string option \<Rightarrow> (strategy \<times> string) list" where
  "offer site v = (if truthy v then [(site, the v)] else [])"

definition login_offer :: "world \<Rightarrow> nat \<Rightarrow> (strategy \<times> string) list" where
  "login_offer w attempt =
     (case getF1tvToken w attempt of
        Throws \<Rightarrow> []
      | Returns v \<Rightarrow> offer (AutomatedLogin attempt) v)"

definition spec_candidates ::
  "world \<Rightarrow> string option \<Rightarrow> string option \<Rightarrow> tm_state \<Rightarrow> (strategy \<times> string) list" where
  "spec_candidates w user pass st =
     offer Cache (loadTokenFromCache (tokenCache st) (now w))
     @ offer BrowserAutoExtract
         (case autoExtractF1TVCookies w of Throws \<Rightarrow> None | Returns a \<Rightarrow> a)
     @ offer ManualCookieFile (loadManualCookie w)
     @ (if truthy user \<and> truthy pass
        then login_offer w 1 @ login_offer w 2 @ login_offer w 3
        else [])"

definition spec_accepted ::
  "world \<Rightarrow> string option \<Rightarrow> string option \<Rightarrow> tm_state \<Rightarrow> (strategy \<times> string) option" where
  "spec_accepted w user pass st =
     find (\<lambda>(site, tok). validateToken w site tok) (spec_candidates w user pass st)"

definition source_tag :: "strategy \<Rightarrow> string" where
  "source_tag site =
     (case site of
        Cache \<Rightarrow> ''cache''
      | BrowserAutoExtract \<Rightarrow> ''browser-auto-extract''
      | ManualCookieFile \<Rightarrow> ''manual-cookie-file''
      | AutomatedLogin _ \<Rightarrow> ''automated-login'')"

section \<open>Notions used in the statements\<close>

text \<open>The admission branch of \<open>processQueue\<close>: the head of the pending queue becomes
  active and its \<open>processTask\<close> invocation starts.\<close>

definition admit :: "dq \<Rightarrow> dq" where
  "admit s = processTask (hd (queue s)) (s\<lparr> queue := tl (queue s), active := active s @ [hd (queue s)] \<rparr>)"

text \<open>The bound on the active set that holds for every configuration.\<close>

definition within_limit :: "dq \<Rightarrow> bool" where
  "within_limit s = (int (length (active s)) \<le> max 0 \<lceil>maxConcurrent s\<rceil>)"

text \<open>The audio codec parameters \<open>downloadVideo\<close> uses with a second audio track.\<close>

definition intl_codec :: "string \<Rightarrow> string list" where
  "intl_codec lang =
     [''-c:a'', ''copy'', ''-metadata:s:a:0'', ''language=eng'', ''-disposition:a:0'', ''default'',
      ''-metadata:s:a:1'', ''language='' @ intlLangId lang, ''-disposition:a:1'', ''0'']"

subsection \<open>Where a task is\<close>

text \<open>
  A suspended invocation of \<open>processTask\<close> is in flight until its task has been put
  back into the pending queue or into one of the two logs; it holds its entry of
  \<open>active\<close> until its \<open>finally\<close> block has run. A task is unfinished while its status
  is \<open>queued\<close> or \<open>downloading\<close>.
\<close>

definition in_flight :: "pc \<Rightarrow> bool" where
  "in_flight p = (case p of AwaitHandleTaskError \<Rightarrow> False | SleepFinal _ \<Rightarrow> False | _ \<Rightarrow> True)"

definition holds_slot :: "pc \<Rightarrow> bool" where
  "holds_slot p = (case p of SleepFinal _ \<Rightarrow> False | _ \<Rightarrow> True)"

definition flights :: "(nat \<times> pc) list \<Rightarrow> nat multiset" where
  "flights cs = mset (map fst (filter (\<lambda>c. in_flight (snd c)) cs))"

definition holders :: "(nat \<times> pc) list \<Rightarrow> nat multiset" where
  "holders cs = mset (map fst (filter (\<lambda>c. holds_slot (snd c)) cs))"

definition unfinished :: "dq \<Rightarrow> nat \<Rightarrow> bool" where
  "unfinished s t = (task_status s t = Some Queued \<or> task_status s t = Some Downloading)"

text \<open>
  The invariant of the queue: the active list holds exactly the tasks of the
  invocations that hold a slot; no task is pending twice, in flight twice, or both; the
  pending and in-flight tasks are the unfinished ones; the logs hold tasks of the
  matching terminal status; the tasks in the store are the submitted ones.
\<close>

definition consistent :: "dq \<Rightarrow> bool" where
  "consistent s =
     (mset (active s) = holders (conts s) \<and>
      (\<forall>t. count (mset (queue s) + flights (conts s)) t \<le> 1) \<and>
      (\<forall>t. t \<in># mset (queue s) + flights (conts s) \<longleftrightarrow> unfinished s t) \<and>
      (\<forall>t \<in> set (completed s). task_status s t = Some Completed) \<and>
      (\<forall>t \<in> set (failed s). task_status s t = Some Failed) \<and>
      (\<forall>t. task_status s t \<noteq> None \<longleftrightarrow> t < nextId s))"

text \<open>The list of suspended invocations after the \<open>k\<close>-th one has run to its next
  suspension (\<open>Some\<close>) or to its end (\<open>None\<close>).\<close>

definition next_conts :: "nat \<Rightarrow> nat \<Rightarrow> pc option \<Rightarrow> (nat \<times> pc) list \<Rightarrow> (nat \<times> pc) list" where
  "next_conts k t r cs = (case r of Some p' \<Rightarrow> cs[k := (t, p')] | None \<Rightarrow> take k cs @ drop (Suc k) cs)"

subsection \<open>Cache records the program writes\<close>

text \<open>
  The cache file is written by \<open>saveTokenToCache\<close> only, and the expiry it stores comes
  from \<open>extractTokenExpiry\<close>, which turns an \<open>exp\<close> of 0 into \<open>null\<close>: a stored
  expiry is never 0.
\<close>

definition saved_record :: "tokenData \<Rightarrow> bool" where
  "saved_record d = (expires d \<noteq> Some 0)"

definition saved_cache :: "cache_file \<Rightarrow> bool" where
  "saved_cache f = (case f of Parsed d \<Rightarrow> saved_record d | _ \<Rightarrow> True)"

subsection \<open>Example inputs\<close>

text \<open>A submission and a configuration with every option left to its default, a
  rate-limit error, and a run in which the first of two tasks is rate limited once.\<close>

definition cfg0 :: downloadConfig where
  "cfg0 = \<lparr> cfg_url = ''https://f1tv.formula1.com/detail/1/race'', cfg_channel = None,
     cfg_outputDirectory = None, cfg_audioStream = None, cfg_videoSize = None,
     cfg_format = None, cfg_internationalAudio = None, cfg_itsoffset = None \<rparr>"

definition opts0 :: options where
  "opts0 = \<lparr> opt_maxConcurrent = None, opt_delay = None, opt_retryAttempts = None,
     opt_retryDelay = None, opt_rateLimitBackoff = None \<rparr>"

definition err_429 :: err where
  "err_429 = \<lparr> message = ''Request failed with status code 429'', response_status = Some 429 \<rparr>"

definition trace_429 :: "action list" where
  "trace_429 = [AddDownload cfg0, AddDownload cfg0, ResumeTask 0 (Rejected err_429),
                ResumeTask 0 Resolved, ResumeTask 0 Resolved, WakeLoop 0]"

text \<open>Three submissions followed by two wake-ups of the scheduling loop.\<close>

definition trace_three :: "action list" where
  "trace_three = [AddDownload cfg0, AddDownload cfg0, AddDownload cfg0, WakeLoop 0, WakeLoop 0]"

text \<open>A server error, a run in which the only task fails once, and the same run
  continued past the retry sleep.\<close>

definition err_500 :: err where
  "err_500 = \<lparr> message = ''Request failed with status code 500'', response_status = Some 500 \<rparr>"

definition trace_fail :: "action list" where
  "trace_fail = [AddDownload cfg0, ResumeTask 0 (Rejected err_500)]"

definition trace_retry :: "action list" where
  "trace_retry = [AddDownload cfg0, ResumeTask 0 (Rejected err_500), ResumeTask 0 Resolved]"

text \<open>A task that asks for Dutch commentary, track ids as \<open>getProgramStreamId\<close> might
  return them, and the two commands \<open>downloadVideo\<close> builds for an HLS stream.\<close>

definition k0 :: task where
  "k0 = new_task 0 (cfg0\<lparr> cfg_internationalAudio := Some ''nld'' \<rparr>)"

definition gp0 :: "string \<Rightarrow> string \<Rightarrow> string \<Rightarrow> err + stream_ids" where
  "gp0 u lang sz = Inr \<lparr> videoId = (if sz = ''480x270'' then 7 else 5), audioId = 2 \<rparr>"

definition cmd_intl :: ffmpeg_command where
  "cmd_intl =
     \<lparr> inputs = [(''s.m3u8'', inputOptions),
                 (''i.m3u8'', inputOptions @ [''-itsoffset'', ''-00:00:04.750''])],
       outputOptions =
         [''-map'', ''0:p:5:v'', ''-map'', ''1:p:7:v'', ''-map'', ''0:p:5:a'', ''-map'', ''1:p:5:a:2'',
          ''-c:v'', ''copy'', ''-c:a'', ''copy'',
          ''-metadata:s:a:0'', ''language=eng'', ''-disposition:a:0'', ''default'',
          ''-metadata:s:a:1'', ''language=nld'', ''-disposition:a:1'', ''0'',
          ''-bsf:a'', ''aac_adtstoasc'', ''-movflags'', ''faststart'', ''-y''] \<rparr>"

definition cmd_plain :: ffmpeg_command where
  "cmd_plain =
     \<lparr> inputs = [(''s.m3u8'', inputOptions)],
       outputOptions =
         [''-map'', ''0:p:5:v'', ''-map'', ''0:p:5:a'', ''-c:v'', ''copy'', ''-c:a'', ''copy'',
          ''-bsf:a'', ''aac_adtstoasc'', ''-movflags'', ''faststart'', ''-y''] \<rparr>"

text \<open>An environment in which only the manual cookie file yields a credential and the
  cache file cannot be written; one in which it can be written and tokens expire
  200 seconds after the other's clock; the record written there.\<close>

definition w0 :: world where
  "w0 = \<lparr> now = 1700000000000, saveTime = 1700000000500, cacheWritable = False,
           jwt_exp = (\<lambda>_. None),
           api_response = (\<lambda>site tok. if tok = ''good'' \<or> tok = ''cached'' then Returns 200 else Returns 401),
           autoExtractF1TVCookies = Throws,
           manualCookies = Cookies (Some ''good''),
           getF1tvToken = (\<lambda>_. Throws) \<rparr>"

definition st0 :: tm_state where
  "st0 = \<lparr> tokenCache = NoFile, tm_retryDelay = 2000, slept = [] \<rparr>"

definition w_save :: world where
  "w_save = w0\<lparr> cacheWritable := True, saveTime := 1699999000000,
               jwt_exp := (\<lambda>_. Some 1700000200) \<rparr>"

definition d_soon :: tokenData where
  "d_soon = \<lparr> token = ''cached'', source = ''manual-cookie-file'', timestamp = 1699999000000,
              expires = Some 1700000200 \<rparr>"

section \<open>Properties of the download queue\<close>

subsection \<open>What each operation does to each field\<close>

lemma emit_fields [simp]:
  "maxConcurrent (emit e s) = maxConcurrent s"
  "retryAttempts (emit e s) = retryAttempts s"
  "retryDelay (emit e s) = retryDelay s"
  "rateLimitBackoff (emit e s) = rateLimitBackoff s"
  "delayBetweenDownloads (emit e s) = delayBetweenDownloads s"
  "queue (emit e s) = queue s"
  "active (emit e s) = active s"
  "completed (emit e s) = completed s"
  "failed (emit e s) = failed s"
  "isRunning (emit e s) = isRunning s"
  "isPaused (emit e s) = isPaused s"
  "stats (emit e s) = stats s"
  "tasks (emit e s) = tasks s"
  "nextId (emit e s) = nextId s"
  "conts (emit e s) = conts s"
  "loop_timers (emit e s) = loop_timers s"
  "events (emit e s) = events s @ [e]"
  by (simp_all add: emit_def)

lemma upd_task_fields [simp]:
  "maxConcurrent (upd_task t f s) = maxConcurrent s"
  "retryAttempts (upd_task t f s) = retryAttempts s"
  "retryDelay (upd_task t f s) = retryDelay s"
  "rateLimitBackoff (upd_task t f s) = rateLimitBackoff s"
  "delayBetweenDownloads (upd_task t f s) = delayBetweenDownloads s"
  "queue (upd_task t f s) = queue s"
  "active (upd_task t f s) = active s"
  "completed (upd_task t f s) = completed s"
  "failed (upd_task t f s) = failed s"
  "isRunning (upd_task t f s) = isRunning s"
  "isPaused (upd_task t f s) = isPaused s"
  "stats (upd_task t f s) = stats s"
  "tasks (upd_task t f s) = (tasks s)(t := map_option f (tasks s t))"
  "nextId (upd_task t f s) = nextId s"
  "conts (upd_task t f s) = conts s"
  "loop_timers (upd_task t f s) = loop_timers s"
  "events (upd_task t f s) = events s"
  by (simp_all add: upd_task_def)

lemma task_attempts_upd_error [simp]:
  "task_attempts (upd_task t (\<lambda>k. k\<lparr>error := x\<rparr>) s) u = task_attempts s u"
  by (simp add: task_attempts_def split: option.splits)

lemma sleep_loop_fields [simp]:
  "maxConcurrent (sleep_loop d s) = maxConcurrent s"
  "retryAttempts (sleep_loop d s) = retryAttempts s"
  "queue (sleep_loop d s) = queue s"
  "active (sleep_loop d s) = active s"
  "completed (sleep_loop d s) = completed s"
  "failed (sleep_loop d s) = failed s"
  "isRunning (sleep_loop d s) = isRunning s"
  "isPaused (sleep_loop d s) = isPaused s"
  "stats (sleep_loop d s) = stats s"
  "tasks (sleep_loop d s) = tasks s"
  "nextId (sleep_loop d s) = nextId s"
  "conts (sleep_loop d s) = conts s"
  "loop_timers (sleep_loop d s) = loop_timers s @ [d]"
  by (simp_all add: sleep_loop_def)

lemma finishQueue_fields [simp]:
  "maxConcurrent (finishQueue s) = maxConcurrent s"
  "retryAttempts (finishQueue s) = retryAttempts s"
  "queue (finishQueue s) = queue s"
  "active (finishQueue s) = active s"
  "completed (finishQueue s) = completed s"
  "failed (finishQueue s) = failed s"
  "isRunning (finishQueue s) = False"
  "isPaused (finishQueue s) = isPaused s"
  "stats (finishQueue s) = stats s"
  "tasks (finishQueue s) = tasks s"
  "nextId (finishQueue s) = nextId s"
  "conts (finishQueue s) = conts s"
  "loop_timers (finishQueue s) = loop_timers s"
  by (simp_all add: finishQueue_def Let_def)

lemma processTask_fields [simp]:
  "maxConcurrent (processTask t s) = maxConcurrent s"
  "retryAttempts (processTask t s) = retryAttempts s"
  "queue (processTask t s) = queue s"
  "active (processTask t s) = active s"
  "completed (processTask t s) = completed s"
  "failed (processTask t s) = failed s"
  "isRunning (processTask t s) = isRunning s"
  "isPaused (processTask t s) = isPaused s"
  "stats (processTask t s) = stats s"
  "tasks (processTask t s) =
     (tasks s)(t := map_option (\<lambda>k. k\<lparr> status := Downloading, attempts := attempts k + 1 \<rparr>) (tasks s t))"
  "nextId (processTask t s) = nextId s"
  "conts (processTask t s) = conts s @ [(t, AwaitContentInfo)]"
  "loop_timers (processTask t s) = loop_timers s"
  by (simp_all add: processTask_def Let_def)

lemma admit_fields [simp]:
  "maxConcurrent (admit s) = maxConcurrent s"
  "retryAttempts (admit s) = retryAttempts s"
  "queue (admit s) = tl (queue s)"
  "active (admit s) = active s @ [hd (queue s)]"
  "completed (admit s) = completed s"
  "failed (admit s) = failed s"
  "isRunning (admit s) = isRunning s"
  "isPaused (admit s) = isPaused s"
  "stats (admit s) = stats s"
  "tasks (admit s) =
     (tasks s)(hd (queue s) := map_option (\<lambda>k. k\<lparr> status := Downloading, attempts := attempts k + 1 \<rparr>)
        (tasks s (hd (queue s))))"
  "nextId (admit s) = nextId s"
  "conts (admit s) = conts s @ [(hd (queue s), AwaitContentInfo)]"
  "loop_timers (admit s) = loop_timers s"
  by (simp_all add: admit_def)

lemma processTask_finally_fields [simp]:
  "maxConcurrent (fst (processTask_finally t s)) = maxConcurrent s"
  "retryAttempts (fst (processTask_finally t s)) = retryAttempts s"
  "queue (fst (processTask_finally t s)) = queue s"
  "active (fst (processTask_finally t s)) = remove1 t (active s)"
  "completed (fst (processTask_finally t s)) = completed s"
  "failed (fst (processTask_finally t s)) = failed s"
  "tasks (fst (processTask_finally t s)) = tasks s"
  "nextId (fst (processTask_finally t s)) = nextId s"
  "conts (fst (processTask_finally t s)) = conts s"
  by (simp_all add: processTask_finally_def Let_def)

lemma processTask_success_fields [simp]:
  "maxConcurrent (fst (processTask_success t s)) = maxConcurrent s"
  "retryAttempts (fst (processTask_success t s)) = retryAttempts s"
  "queue (fst (processTask_success t s)) = queue s"
  "active (fst (processTask_success t s)) = remove1 t (active s)"
  "completed (fst (processTask_success t s)) = completed s @ [t]"
  "failed (fst (processTask_success t s)) = failed s"
  "tasks (fst (processTask_success t s)) =
     (tasks s)(t := map_option (\<lambda>k. k\<lparr> status := Completed \<rparr>) (tasks s t))"
  "nextId (fst (processTask_success t s)) = nextId s"
  "conts (fst (processTask_success t s)) = conts s"
  by (simp_all add: processTask_success_def Let_def)

lemma handleTaskError_retry_fields [simp]:
  "maxConcurrent (fst (handleTaskError_retry t s)) = maxConcurrent s"
  "retryAttempts (fst (handleTaskError_retry t s)) = retryAttempts s"
  "queue (fst (handleTaskError_retry t s)) = queue s"
  "active (fst (handleTaskError_retry t s)) = active s"
  "completed (fst (handleTaskError_retry t s)) = completed s"
  "nextId (fst (handleTaskError_retry t s)) = nextId s"
  "conts (fst (handleTaskError_retry t s)) = conts s"
  by (simp_all add: handleTaskError_retry_def Let_def)

lemma handleTaskError_fields [simp]:
  "maxConcurrent (fst (handleTaskError t e s)) = maxConcurrent s"
  "retryAttempts (fst (handleTaskError t e s)) = retryAttempts s"
  "queue (fst (handleTaskError t e s)) = queue s"
  "active (fst (handleTaskError t e s)) = active s"
  "completed (fst (handleTaskError t e s)) = completed s"
  "nextId (fst (handleTaskError t e s)) = nextId s"
  "conts (fst (handleTaskError t e s)) = conts s"
  by (simp_all add: handleTaskError_def Let_def)

lemma handleTaskError_after_rateLimit_fields [simp]:
  "maxConcurrent (fst (handleTaskError_after_rateLimit t s)) = maxConcurrent s"
  "retryAttempts (fst (handleTaskError_after_rateLimit t s)) = retryAttempts s"
  "active (fst (handleTaskError_after_rateLimit t s)) = active s"
  "completed (fst (handleTaskError_after_rateLimit t s)) = completed s"
  "nextId (fst (handleTaskError_after_rateLimit t s)) = nextId s"
  "conts (fst (handleTaskError_after_rateLimit t s)) = conts s"
  by (simp_all add: handleTaskError_after_rateLimit_def)

lemma handleTaskError_after_retry_fields [simp]:
  "maxConcurrent (fst (handleTaskError_after_retry t s)) = maxConcurrent s"
  "retryAttempts (fst (handleTaskError_after_retry t s)) = retryAttempts s"
  "queue (fst (handleTaskError_after_retry t s)) = t # queue s"
  "active (fst (handleTaskError_after_retry t s)) = active s"
  "completed (fst (handleTaskError_after_retry t s)) = completed s"
  "failed (fst (handleTaskError_after_retry t s)) = failed s"
  "tasks (fst (handleTaskError_after_retry t s)) = tasks s"
  "nextId (fst (handleTaskError_after_retry t s)) = nextId s"
  "conts (fst (handleTaskError_after_retry t s)) = conts s"
  by (simp_all add: handleTaskError_after_retry_def)

subsection \<open>History\<close>

text \<open>
  Claim C10. \<open>clearHistory\<close> empties the completed and the failed collection and leaves
  the pending queue, the active set and every statistics counter as they were; a
  \<open>getStatus\<close> call after it reports zero completed and zero failed downloads while
  \<open>stats.completed\<close> and \<open>stats.failed\<close> keep their earlier values.
\<close>

theorem clearHistory_frame:
  "completed (clearHistory s) = [] \<and> failed (clearHistory s) = [] \<and>
   queue (clearHistory s) = queue s \<and> active (clearHistory s) = active s \<and>
   stats (clearHistory s) = stats s \<and>
   completedDownloads (getStatus (clearHistory s)) = 0 \<and>
   failedDownloads (getStatus (clearHistory s)) = 0 \<and>
   stats_completed (rep_stats (getStatus (clearHistory s))) = stats_completed (stats s) \<and>
   stats_failed (rep_stats (getStatus (clearHistory s))) = stats_failed (stats s) \<and>
   totalQueued (rep_stats (getStatus (clearHistory s))) = totalQueued (stats s)"
  by (simp add: clearHistory_def getStatus_def)

subsection \<open>The scheduling loop\<close>

text \<open>One unfolding of \<open>processQueue\<close>, and the rule that a property kept by its three
  kinds of step is kept by the whole run.\<close>

lemma processQueue_unfold:
  "processQueue s =
     (if \<not> isRunning s then finishQueue s
      else if isPaused s then sleep_loop 1000 s
      else if of_nat (length (active s)) < maxConcurrent s \<and> queue s \<noteq> [] then
        (if queue (admit s) \<noteq> [] \<and> maxConcurrent s > 1
         then sleep_loop (min (delayBetweenDownloads s / 2) 10000) (admit s)
         else processQueue (admit s))
      else if active s = [] \<and> queue s = [] then finishQueue s
      else sleep_loop 1000 s)"
  by (subst processQueue.simps) (simp add: Let_def admit_def processTask_def upd_task_def emit_def)

lemma processQueue_preserves:
  assumes fin: "\<And>s. P s \<Longrightarrow> P (finishQueue s)"
    and slp: "\<And>d s. P s \<Longrightarrow> P (sleep_loop d s)"
    and adm: "\<And>s. P s \<Longrightarrow> isRunning s \<Longrightarrow> \<not> isPaused s \<Longrightarrow>
                of_nat (length (active s)) < maxConcurrent s \<Longrightarrow> queue s \<noteq> [] \<Longrightarrow> P (admit s)"
  shows "P s \<Longrightarrow> P (processQueue s)"
proof (induction "length (queue s)" arbitrary: s rule: less_induct)
  case less
  show ?case
  proof (cases "isRunning s \<and> \<not> isPaused s \<and> of_nat (length (active s)) < maxConcurrent s \<and> queue s \<noteq> []")
    case True
    then have pa: "P (admit s)" using adm less.prems by blast
    have "length (queue (admit s)) < length (queue s)" using True by simp
    then have "P (processQueue (admit s))" using less.hyps pa by blast
    then show ?thesis using True pa slp by (subst processQueue_unfold) simp
  next
    case False
    then show ?thesis using less.prems fin slp by (subst processQueue_unfold) auto
  qed
qed

lemma processQueue_admits_head:
  assumes "isRunning s" "\<not> isPaused s" "of_nat (length (active s)) < maxConcurrent s" "queue s = t # q"
  shows "active (processQueue s) = active s @ [t] \<and> queue (processQueue s) = q"
proof -
  have a: "processQueue (admit s) = sleep_loop 1000 (admit s)" if "\<not> (q \<noteq> [] \<and> maxConcurrent s > 1)"
    using that assms by (subst processQueue_unfold) auto
  have b: "processQueue s =
      (if q \<noteq> [] \<and> maxConcurrent s > 1
       then sleep_loop (min (delayBetweenDownloads s / 2) 10000) (admit s)
       else sleep_loop 1000 (admit s))"
    using assms a by (subst processQueue_unfold) auto
  show ?thesis
    unfolding b using assms by auto
qed

lemma admission_below_ceiling:
  "rat_of_nat n < m \<Longrightarrow> int n \<le> max 0 \<lceil>m\<rceil> \<Longrightarrow> int (Suc n) \<le> max 0 \<lceil>m\<rceil>"
proof -
  assume "rat_of_nat n < m"
  then have "rat_of_int (int n) < m" by simp
  then have "int n < \<lceil>m\<rceil>" by (simp only: less_ceiling_iff)
  then show "int (Suc n) \<le> max 0 \<lceil>m\<rceil>" by simp
qed

lemma processQueue_within_limit: "within_limit s \<Longrightarrow> within_limit (processQueue s)"
proof (rule processQueue_preserves [where P = within_limit])
  fix u assume "within_limit u"
  then show "within_limit (finishQueue u)" by (simp add: within_limit_def)
next
  fix d u assume "within_limit u"
  then show "within_limit (sleep_loop d u)" by (simp add: within_limit_def)
next
  fix u assume "within_limit u" "of_nat (length (active u)) < maxConcurrent u"
  then show "within_limit (admit u)"
    using admission_below_ceiling [of "length (active u)" "maxConcurrent u"]
    by (simp add: within_limit_def)
qed

lemma processQueue_maxConcurrent: "maxConcurrent (processQueue s) = maxConcurrent s"
proof -
  have "(\<lambda>u. maxConcurrent u = maxConcurrent s) (processQueue s)"
    by (rule processQueue_preserves) auto
  then show ?thesis .
qed

subsection \<open>Retries\<close>

text \<open>Evaluating a run of actions on concrete inputs.\<close>

lemmas eval_defs = run_def opts0_def cfg0_def constructor_def addDownload_def new_task_def
     js_or_def js_or_str_def start_def emit_def processQueue.simps processTask_def upd_task_def
     Let_def sleep_loop_def resume_cont_def handleTaskError_def handleTaskError_retry_def
     retry_sleep_def task_attempts_def

lemmas eval_defs2 = eval_defs handleTaskError_after_rateLimit_def processTask_finally_def
  wake_loop_def err_429_def trace_429_def

text \<open>
  Claim C3. When a task fails with an error that is not an HTTP 429 and its attempts
  \<open>n\<close> are below the retry limit, \<open>handleTaskError\<close> sleeps exactly
  \<open>retryDelay * 2^(n-1)\<close> and, when the sleep is over, puts the task at the head of the
  pending queue; when \<open>n\<close> has reached the limit the task is appended to \<open>failed\<close>,
  counted, marked as failed, and \<open>taskFailed\<close> is emitted.
\<close>

theorem retry_backoff:
  assumes "p \<in> {AwaitContentInfo, AwaitTokenizedUrl, AwaitDownloadVideo}"
    and "response_status e \<noteq> Some 429"
  shows "(let r = resume t p (Rejected e) s; n = task_attempts s t in
          if of_int n < retryAttempts s
          then snd r = Some (SleepRetry (retryDelay s * 2 powi (n - 1))) \<and>
               queue (fst r) = queue s \<and> active (fst r) = active s \<and>
               failed (fst r) = failed s \<and> completed (fst r) = completed s \<and>
               events (fst r) = events s \<and>
               (\<forall>d out s'. resume t (SleepRetry d) out s' =
                   (s'\<lparr> queue := t # queue s' \<rparr>, Some AwaitHandleTaskError))
          else snd r = Some AwaitHandleTaskError \<and>
               failed (fst r) = failed s @ [t] \<and>
               stats_failed (stats (fst r)) = stats_failed (stats s) + 1 \<and>
               events (fst r) = events s @ [TaskFailed t] \<and>
               task_status (fst r) t = map_option (\<lambda>_. Failed) (tasks s t) \<and>
               queue (fst r) = queue s \<and> active (fst r) = active s \<and>
               completed (fst r) = completed s)"
  using assms
  by (auto simp: Let_def handleTaskError_def handleTaskError_retry_def retry_sleep_def
      handleTaskError_after_retry_def task_status_def option.map_comp comp_def split: option.splits)

text \<open>Witness for C3: the first failure of a task under the default configuration is
  followed by a sleep of 5000 ms.\<close>

theorem retry_backoff_witness:
  "AwaitContentInfo \<in> {AwaitContentInfo, AwaitTokenizedUrl, AwaitDownloadVideo} \<and>
   response_status \<lparr>message = ''boom'', response_status = Some 500\<rparr> \<noteq> Some 429 \<and>
   task_attempts (run (\<lambda>_. True) opts0 [AddDownload cfg0]) 0 = 1 \<and>
   retryAttempts (run (\<lambda>_. True) opts0 [AddDownload cfg0]) = 3 \<and>
   snd (resume 0 AwaitContentInfo (Rejected \<lparr>message = ''boom'', response_status = Some 500\<rparr>)
          (run (\<lambda>_. True) opts0 [AddDownload cfg0])) = Some (SleepRetry 5000)"
  using retry_backoff [of AwaitContentInfo "\<lparr>message = ''boom'', response_status = Some 500\<rparr>"
      0 "run (\<lambda>_. True) opts0 [AddDownload cfg0]"]
  by (simp add: eval_defs)

text \<open>
  Claim C4. When a task fails with an HTTP 429, \<open>handleTaskError\<close> sleeps the fixed
  \<open>rateLimitBackoff\<close>, whatever the number of attempts; if attempts remain after the
  sleep the task is put at the head of the pending queue, and the next admission of
  the scheduling loop takes it and leaves the tasks that were pending before it.
\<close>

theorem rate_limit_backoff:
  assumes "p \<in> {AwaitContentInfo, AwaitTokenizedUrl, AwaitDownloadVideo}"
    and "response_status e = Some 429"
  shows "(let r = resume t p (Rejected e) s in
            snd r = Some (SleepRateLimit (rateLimitBackoff s)) \<and>
            queue (fst r) = queue s \<and> active (fst r) = active s \<and>
            failed (fst r) = failed s \<and> completed (fst r) = completed s \<and>
            events (fst r) = events s) \<and>
         (\<forall>d out s'. of_int (task_attempts s' t) < retryAttempts s' \<longrightarrow>
            resume t (SleepRateLimit d) out s' =
              (s'\<lparr> queue := t # queue s' \<rparr>, Some AwaitHandleTaskError)) \<and>
         (\<forall>s'. isRunning s' \<and> \<not> isPaused s' \<and> of_nat (length (active s')) < maxConcurrent s' \<longrightarrow>
            active (processQueue (s'\<lparr> queue := t # queue s' \<rparr>)) = active s' @ [t] \<and>
            queue (processQueue (s'\<lparr> queue := t # queue s' \<rparr>)) = queue s')"
proof -
  have 1: "\<And>s'. isRunning s' \<and> \<not> isPaused s' \<and> of_nat (length (active s')) < maxConcurrent s' \<Longrightarrow>
            active (processQueue (s'\<lparr> queue := t # queue s' \<rparr>)) = active s' @ [t] \<and>
            queue (processQueue (s'\<lparr> queue := t # queue s' \<rparr>)) = queue s'"
    using processQueue_admits_head [of "s'\<lparr> queue := t # queue s' \<rparr>" t "queue s'" for s'] by simp
  show ?thesis
    using assms 1
    by (auto simp: Let_def handleTaskError_def handleTaskError_after_rateLimit_def)
qed

text \<open>Witness for C4: of two submitted tasks the first is rate limited; it sleeps
  60000 ms, re-enters the queue before the second, and is admitted again first.\<close>

theorem rate_limit_backoff_witness:
  "AwaitContentInfo \<in> {AwaitContentInfo, AwaitTokenizedUrl, AwaitDownloadVideo} \<and>
   response_status err_429 = Some 429 \<and>
   snd (resume 0 AwaitContentInfo (Rejected err_429)
          (run (\<lambda>_. True) opts0 [AddDownload cfg0, AddDownload cfg0])) = Some (SleepRateLimit 60000) \<and>
   queue (run (\<lambda>_. True) opts0 [AddDownload cfg0, AddDownload cfg0, ResumeTask 0 (Rejected err_429)]) = [1] \<and>
   queue (run (\<lambda>_. True) opts0 [AddDownload cfg0, AddDownload cfg0, ResumeTask 0 (Rejected err_429),
             ResumeTask 0 Resolved]) = [0, 1] \<and>
   active (run (\<lambda>_. True) opts0 trace_429) = [0] \<and>
   queue (run (\<lambda>_. True) opts0 trace_429) = [1]"
proof -
  have h1: "AwaitContentInfo \<in> {AwaitContentInfo, AwaitTokenizedUrl, AwaitDownloadVideo}" by simp
  have h2: "response_status err_429 = Some 429" by (simp add: err_429_def)
  have "snd (resume 0 AwaitContentInfo (Rejected err_429)
          (run (\<lambda>_. True) opts0 [AddDownload cfg0, AddDownload cfg0])) =
        Some (SleepRateLimit (rateLimitBackoff (run (\<lambda>_. True) opts0 [AddDownload cfg0, AddDownload cfg0])))"
    using rate_limit_backoff [OF h1 h2, of 0 "run (\<lambda>_. True) opts0 [AddDownload cfg0, AddDownload cfg0]"]
    by (simp add: Let_def)
  then show ?thesis
    using h1 h2 by (simp add: eval_defs2)
qed

subsection \<open>The concurrency limit\<close>

lemma resume_maxConcurrent [simp]: "maxConcurrent (fst (resume t p out s)) = maxConcurrent s"
  by (cases "(t, p, out, s)" rule: resume.cases) simp_all

lemma resume_active:
  "active (fst (resume t p out s)) = active s \<or> active (fst (resume t p out s)) = remove1 t (active s)"
  by (cases "(t, p, out, s)" rule: resume.cases) simp_all

lemma resume_cont_shape:
  "\<exists>c. resume_cont k out s =
     (if k < length (conts s)
      then (fst (resume (fst (conts s ! k)) (snd (conts s ! k)) out s))\<lparr> conts := c \<rparr>
      else s)"
  by (auto simp: resume_cont_def split: prod.splits option.splits)

lemma resume_cont_maxConcurrent [simp]: "maxConcurrent (resume_cont k out s) = maxConcurrent s"
  using resume_cont_shape [of k out s] by (auto split: if_splits)

lemma length_remove1_le: "length (remove1 x xs) \<le> length xs"
  by (induction xs) auto

lemma resume_cont_within_limit: "within_limit s \<Longrightarrow> within_limit (resume_cont k out s)"
proof -
  assume a: "within_limit s"
  obtain c where c: "resume_cont k out s =
     (if k < length (conts s)
      then (fst (resume (fst (conts s ! k)) (snd (conts s ! k)) out s))\<lparr> conts := c \<rparr>
      else s)"
    using resume_cont_shape by blast
  have "length (active (resume_cont k out s)) \<le> length (active s)"
    using resume_active [of "fst (conts s ! k)" "snd (conts s ! k)" out s]
      length_remove1_le [of "fst (conts s ! k)" "active s"]
    by (auto simp: c)
  then show ?thesis using a by (simp add: within_limit_def)
qed

lemma start_within_limit: "within_limit s \<Longrightarrow> within_limit (start s)"
  by (auto simp: start_def intro!: processQueue_within_limit) (simp add: within_limit_def)

lemma start_maxConcurrent [simp]: "maxConcurrent (start s) = maxConcurrent s"
  by (simp add: start_def processQueue_maxConcurrent)

lemma fire_maxConcurrent: "maxConcurrent (fire v a s) = maxConcurrent s"
  by (cases a)
     (auto simp: addDownload_def Let_def stop_def pause_def resume_queue_def clearHistory_def
        wake_loop_def processQueue_maxConcurrent)

lemma fire_within_limit: "within_limit s \<Longrightarrow> within_limit (fire v a s)"
proof (cases a)
  case (AddDownload c)
  assume "within_limit s"
  then show ?thesis
    unfolding AddDownload
    by (auto simp: addDownload_def Let_def intro!: start_within_limit) (simp_all add: within_limit_def)
next
  case Start
  assume "within_limit s"
  then show ?thesis unfolding Start by (simp add: start_within_limit)
next
  case Resume
  assume "within_limit s"
  then show ?thesis
    unfolding Resume
    by (auto simp: resume_queue_def intro!: processQueue_within_limit) (simp add: within_limit_def)
next
  case (WakeLoop k)
  assume "within_limit s"
  then show ?thesis
    unfolding WakeLoop
    by (auto simp: wake_loop_def intro!: processQueue_within_limit) (simp add: within_limit_def)
next
  case (ResumeTask k out)
  assume "within_limit s"
  then show ?thesis unfolding ResumeTask by (simp add: resume_cont_within_limit)
qed (simp_all add: within_limit_def stop_def pause_def clearHistory_def)

lemma foldl_fire_maxConcurrent:
  "maxConcurrent (foldl (\<lambda>s a. fire v a s) s as) = maxConcurrent s"
  by (induction as arbitrary: s) (simp_all add: fire_maxConcurrent)

lemma foldl_fire_within_limit:
  "within_limit s \<Longrightarrow> within_limit (foldl (\<lambda>s a. fire v a s) s as)"
  by (induction as arbitrary: s) (simp_all add: fire_within_limit)

text \<open>
  Claim C1, as the code has it. After any sequence of actions the number of active
  tasks is at most \<open>maxConcurrent\<close> rounded up to a whole number (and 0 when it is
  negative), so at most \<open>maxConcurrent\<close> itself whenever that is a whole number and not
  negative, and at most 3 in every case; \<open>maxConcurrent\<close> is the requested value (1 when
  none or 0 is requested) cut off at 3, and never changes.
\<close>

theorem active_within_limit:
  "int (length (active (run v opts as))) \<le> max 0 \<lceil>maxConcurrent (run v opts as)\<rceil> \<and>
   maxConcurrent (run v opts as) = min (js_or (opt_maxConcurrent opts) 1) 3 \<and>
   maxConcurrent (run v opts as) \<le> 3 \<and>
   length (active (run v opts as)) \<le> 3 \<and>
   (maxConcurrent (run v opts as) \<in> \<int> \<and> 0 \<le> maxConcurrent (run v opts as) \<longrightarrow>
      of_nat (length (active (run v opts as))) \<le> maxConcurrent (run v opts as))"
proof -
  define m where "m = maxConcurrent (run v opts as)"
  define n where "n = length (active (run v opts as))"
  have 0: "within_limit (constructor opts)"
    by (simp add: within_limit_def constructor_def)
  have "within_limit (run v opts as)"
    unfolding run_def by (rule foldl_fire_within_limit [OF 0])
  then have 1: "int n \<le> max 0 \<lceil>m\<rceil>"
    by (simp add: within_limit_def m_def n_def)
  have 2: "m = min (js_or (opt_maxConcurrent opts) 1) 3"
    unfolding m_def run_def by (simp add: foldl_fire_maxConcurrent) (simp add: constructor_def)
  have 3: "m \<le> 3" by (simp add: 2)
  have c: "\<lceil>m\<rceil> \<le> 3" using 3 by (simp add: ceiling_le_iff)
  have 4: "n \<le> 3" using 1 c by linarith
  have 5: "rat_of_nat n \<le> m" if mi: "m \<in> \<int>" and mp: "0 \<le> m"
  proof -
    obtain z where z: "m = rat_of_int z" using mi by (auto elim: Ints_cases)
    have "0 \<le> z" using mp by (simp add: z)
    then have "int n \<le> z" using 1 by (simp add: z)
    then have "rat_of_int (int n) \<le> rat_of_int z" by (simp only: of_int_le_iff)
    then show ?thesis by (simp add: z)
  qed
  show ?thesis
    using 1 2 3 4 5 unfolding m_def n_def by blast
qed

text \<open>Witness for C1: with two requested, three submissions and two wake-ups of the
  loop leave two tasks active and one pending.\<close>

theorem active_within_limit_witness:
  "maxConcurrent (run (\<lambda>_. True) (opts0\<lparr> opt_maxConcurrent := Some 2 \<rparr>) trace_three) \<in> \<int> \<and>
   0 \<le> maxConcurrent (run (\<lambda>_. True) (opts0\<lparr> opt_maxConcurrent := Some 2 \<rparr>) trace_three) \<and>
   active (run (\<lambda>_. True) (opts0\<lparr> opt_maxConcurrent := Some 2 \<rparr>) trace_three) = [0, 1] \<and>
   queue (run (\<lambda>_. True) (opts0\<lparr> opt_maxConcurrent := Some 2 \<rparr>) trace_three) = [2] \<and>
   rat_of_nat (length (active (run (\<lambda>_. True) (opts0\<lparr> opt_maxConcurrent := Some 2 \<rparr>) trace_three)))
     \<le> maxConcurrent (run (\<lambda>_. True) (opts0\<lparr> opt_maxConcurrent := Some 2 \<rparr>) trace_three)"
proof -
  have m: "maxConcurrent (run (\<lambda>_. True) (opts0\<lparr> opt_maxConcurrent := Some 2 \<rparr>) trace_three) = 2"
    and a: "active (run (\<lambda>_. True) (opts0\<lparr> opt_maxConcurrent := Some 2 \<rparr>) trace_three) = [0, 1]"
    and q: "queue (run (\<lambda>_. True) (opts0\<lparr> opt_maxConcurrent := Some 2 \<rparr>) trace_three) = [2]"
    by (simp_all add: eval_defs2 trace_three_def)
  have i: "maxConcurrent (run (\<lambda>_. True) (opts0\<lparr> opt_maxConcurrent := Some 2 \<rparr>) trace_three) \<in> \<int>"
    and p: "0 \<le> maxConcurrent (run (\<lambda>_. True) (opts0\<lparr> opt_maxConcurrent := Some 2 \<rparr>) trace_three)"
    by (simp_all add: m)
  show ?thesis
    using active_within_limit [of "\<lambda>_. True" "opts0\<lparr> opt_maxConcurrent := Some 2 \<rparr>" trace_three]
      i p a q by blast
qed

text \<open>Counterexample to C1 as stated: with 2.5 requested the limit is 2.5, the guard
  \<open>active.length < maxConcurrent\<close> still holds with two tasks active, and after three
  submissions and two wake-ups of the loop three tasks are active.\<close>

theorem active_limit_counterexample:
  "maxConcurrent (run (\<lambda>_. True) (opts0\<lparr> opt_maxConcurrent := Some (5 / 2) \<rparr>) trace_three) = 5 / 2 \<and>
   active (run (\<lambda>_. True) (opts0\<lparr> opt_maxConcurrent := Some (5 / 2) \<rparr>) trace_three) = [0, 1, 2] \<and>
   \<not> rat_of_nat (length (active (run (\<lambda>_. True) (opts0\<lparr> opt_maxConcurrent := Some (5 / 2) \<rparr>) trace_three)))
       \<le> maxConcurrent (run (\<lambda>_. True) (opts0\<lparr> opt_maxConcurrent := Some (5 / 2) \<rparr>) trace_three)"
  by (simp add: eval_defs2 trace_three_def)

subsection \<open>Membership in the collections\<close>

text \<open>How the in-flight tasks and the slot holders change when one invocation moves.\<close>

lemma flights_simps [simp]:
  "flights [] = {#}"
  "flights ((t, p) # cs) = (if in_flight p then add_mset t (flights cs) else flights cs)"
  "flights (cs @ ds) = flights cs + flights ds"
  by (simp_all add: flights_def)

lemma holders_simps [simp]:
  "holders [] = {#}"
  "holders ((t, p) # cs) = (if holds_slot p then add_mset t (holders cs) else holders cs)"
  "holders (cs @ ds) = holders cs + holders ds"
  by (simp_all add: holders_def)

lemma split_at:
  "k < length cs \<Longrightarrow> cs = take k cs @ cs ! k # drop (Suc k) cs"
  by (simp add: id_take_nth_drop)

lemma flights_nth:
  assumes "k < length cs" "cs ! k = (t, p)"
  shows "flights cs = flights (take k cs @ drop (Suc k) cs) + (if in_flight p then {#t#} else {#})"
proof -
  have "flights cs = flights (take k cs @ (t, p) # drop (Suc k) cs)"
    using split_at [OF assms(1)] assms(2) by simp
  then show ?thesis by simp
qed

lemma holders_nth:
  assumes "k < length cs" "cs ! k = (t, p)"
  shows "holders cs = holders (take k cs @ drop (Suc k) cs) + (if holds_slot p then {#t#} else {#})"
proof -
  have "holders cs = holders (take k cs @ (t, p) # drop (Suc k) cs)"
    using split_at [OF assms(1)] assms(2) by simp
  then show ?thesis by simp
qed

lemma flights_update:
  assumes "k < length cs"
  shows "flights (cs[k := (t, p')]) =
           flights (take k cs @ drop (Suc k) cs) + (if in_flight p' then {#t#} else {#})"
proof -
  have "cs[k := (t, p')] = take k cs @ (t, p') # drop (Suc k) cs"
    using assms by (simp add: upd_conv_take_nth_drop)
  then show ?thesis by simp
qed

lemma holders_update:
  assumes "k < length cs"
  shows "holders (cs[k := (t, p')]) =
           holders (take k cs @ drop (Suc k) cs) + (if holds_slot p' then {#t#} else {#})"
proof -
  have "cs[k := (t, p')] = take k cs @ (t, p') # drop (Suc k) cs"
    using assms by (simp add: upd_conv_take_nth_drop)
  then show ?thesis by simp
qed

lemma in_flight_holds: "in_flight p \<Longrightarrow> holds_slot p"
  by (cases p) (simp_all add: in_flight_def holds_slot_def)

lemma flights_le_holders: "count (flights cs) t \<le> count (holders cs) t"
proof (induction cs)
  case Nil
  then show ?case by simp
next
  case (Cons c cs)
  obtain u p where c: "c = (u, p)" by (cases c)
  show ?case
    using Cons in_flight_holds [of p] by (auto simp: c)
qed

lemma holders_without_finishing:
  "(t, AwaitHandleTaskError) \<notin> set cs \<Longrightarrow> count (holders cs) t = count (flights cs) t"
proof (induction cs)
  case Nil
  then show ?case by simp
next
  case (Cons c cs)
  obtain u p where c: "c = (u, p)" by (cases c)
  have "p = AwaitHandleTaskError \<or> holds_slot p = in_flight p"
    by (cases p) (simp_all add: holds_slot_def in_flight_def)
  then show ?case using Cons by (auto simp: c)
qed

text \<open>The status of a task after each operation.\<close>

lemma task_status_upd_error [simp]:
  "task_status (upd_task t (\<lambda>k. k\<lparr>error := x\<rparr>) s) u = task_status s u"
  by (simp add: task_status_def option.map_comp comp_def)

lemma task_status_upd_status [simp]:
  "task_status (upd_task t (\<lambda>k. k\<lparr>status := x\<rparr>) s) u =
     (if u = t then map_option (\<lambda>_. x) (task_status s t) else task_status s u)"
  by (simp add: task_status_def option.map_comp comp_def)

lemma task_status_updates [simp]:
  "task_status (emit e s) u = task_status s u"
  "task_status (sleep_loop d s) u = task_status s u"
  "task_status (finishQueue s) u = task_status s u"
  "task_status (s\<lparr>conts := cs\<rparr>) u = task_status s u"
  "task_status (s\<lparr>queue := q\<rparr>) u = task_status s u"
  "task_status (s\<lparr>active := a\<rparr>) u = task_status s u"
  "task_status (s\<lparr>failed := f\<rparr>) u = task_status s u"
  "task_status (s\<lparr>completed := f\<rparr>) u = task_status s u"
  "task_status (s\<lparr>stats := x\<rparr>) u = task_status s u"
  "task_status (s\<lparr>loop_timers := l\<rparr>) u = task_status s u"
  "task_status (s\<lparr>isRunning := b\<rparr>) u = task_status s u"
  "task_status (s\<lparr>isPaused := b\<rparr>) u = task_status s u"
  by (simp_all add: task_status_def)

text \<open>The invariant is kept by each kind of step.\<close>

lemma consistent_cong:
  assumes "queue s' = queue s" "active s' = active s" "completed s' = completed s"
    "failed s' = failed s" "conts s' = conts s" "nextId s' = nextId s"
    "\<And>t. task_status s' t = task_status s t"
  shows "consistent s' = consistent s"
  using assms by (simp add: consistent_def unfinished_def)

lemma consistent_frame [simp]:
  "consistent (emit e s) = consistent s"
  "consistent (sleep_loop d s) = consistent s"
  "consistent (finishQueue s) = consistent s"
  "consistent (s\<lparr>isRunning := b\<rparr>) = consistent s"
  "consistent (s\<lparr>isPaused := b\<rparr>) = consistent s"
  "consistent (s\<lparr>loop_timers := l\<rparr>) = consistent s"
  by (rule consistent_cong; simp)+

lemma error_update_consistent:
  "consistent (upd_task t (\<lambda>k. k\<lparr>error := x\<rparr>) s) = consistent s"
  by (rule consistent_cong) simp_all

lemma consistent_same_flights:
  assumes c: "consistent s"
    and same: "queue s' = queue s" "completed s' = completed s"
      "failed s' = failed s" "nextId s' = nextId s" "\<And>u. task_status s' u = task_status s u"
    and f: "flights (conts s') = flights (conts s)"
    and h: "mset (active s') = holders (conts s')"
  shows "consistent s'"
  using c h by (simp add: consistent_def unfinished_def f same)

lemma step_in_flight:
  assumes c: "consistent s" and k: "k < length (conts s)" and ck: "conts s ! k = (t, p)"
    and p: "in_flight p" "in_flight p'"
    and same: "queue s' = queue s" "active s' = active s" "completed s' = completed s"
      "failed s' = failed s" "nextId s' = nextId s" "\<And>u. task_status s' u = task_status s u"
    and cs: "conts s' = (conts s)[k := (t, p')]"
  shows "consistent s'"
proof -
  have f: "flights (conts s') = flights (conts s)"
    using p by (simp add: cs flights_update [OF k] flights_nth [OF k ck])
  have h: "holders (conts s') = holders (conts s)"
    using p in_flight_holds by (simp add: cs holders_update [OF k] holders_nth [OF k ck])
  show ?thesis
    using c by (simp add: consistent_def unfinished_def f h same)
qed

lemma step_requeue:
  assumes c: "consistent s" and k: "k < length (conts s)" and ck: "conts s ! k = (t, p)"
    and p: "in_flight p"
    and same: "queue s' = t # queue s" "active s' = active s" "completed s' = completed s"
      "failed s' = failed s" "nextId s' = nextId s" "\<And>u. task_status s' u = task_status s u"
    and cs: "conts s' = (conts s)[k := (t, AwaitHandleTaskError)]"
  shows "consistent s'"
proof -
  have f: "mset (queue s') + flights (conts s') = mset (queue s) + flights (conts s)"
    using p by (simp add: cs same flights_update [OF k] flights_nth [OF k ck] in_flight_def)
  have h: "holders (conts s') = holders (conts s)"
    using p in_flight_holds
    by (simp add: cs holders_update [OF k] holders_nth [OF k ck] holds_slot_def)
  show ?thesis
    using c unfolding consistent_def f h unfinished_def by (simp add: same)
qed

lemma step_terminal:
  assumes c: "consistent s" and k: "k < length (conts s)" and ck: "conts s ! k = (t, p)"
    and p: "in_flight p"
    and x: "x = Completed \<or> x = Failed"
    and same: "queue s' = queue s" "nextId s' = nextId s"
      "\<And>u. task_status s' u = (if u = t then map_option (\<lambda>_. x) (task_status s t) else task_status s u)"
    and coll: "set (completed s') = set (completed s) \<union> (if x = Completed then {t} else {})"
      "set (failed s') = set (failed s) \<union> (if x = Failed then {t} else {})"
    and f: "flights (conts s') + {#t#} = flights (conts s)"
    and h: "mset (active s') = holders (conts s')"
  shows "consistent s'"
proof -
  define P where "P = mset (queue s) + flights (conts s)"
  define M where "M = mset (queue s') + flights (conts s')"
  have PM: "P = add_mset t M"
    using f by (simp add: P_def M_def same)
  have le: "\<And>u. count P u \<le> 1"
    using c by (simp add: consistent_def P_def)
  have t0: "count M t = 0"
    using le [of t] by (simp add: PM)
  have cnt: "\<And>u. u \<noteq> t \<Longrightarrow> count M u = count P u"
    by (simp add: PM)
  have "t \<in># P" by (simp add: PM)
  then have un: "unfinished s t"
    using c unfolding consistent_def P_def by blast
  then obtain y where y: "task_status s t = Some y" "y = Queued \<or> y = Downloading"
    by (auto simp: unfinished_def)
  have st: "task_status s' t = Some x" by (simp add: same y)
  have B: "\<forall>u. count (mset (queue s') + flights (conts s')) u \<le> 1"
  proof
    fix u show "count (mset (queue s') + flights (conts s')) u \<le> 1"
      using le [of u] cnt [of u] t0 unfolding M_def [symmetric] by (cases "u = t") simp_all
  qed
  have C: "\<forall>u. u \<in># mset (queue s') + flights (conts s') \<longleftrightarrow> unfinished s' u"
  proof
    fix u show "u \<in># mset (queue s') + flights (conts s') \<longleftrightarrow> unfinished s' u"
    proof (cases "u = t")
      case True
      have "t \<notin># M" using t0 by (simp add: not_in_iff)
      then show ?thesis using st x True unfolding M_def by (auto simp: unfinished_def)
    next
      case False
      have "u \<in># M \<longleftrightarrow> u \<in># P"
        using False by (simp add: PM)
      moreover have "u \<in># P \<longleftrightarrow> unfinished s u"
        using c by (simp add: consistent_def P_def)
      ultimately show ?thesis
        using False unfolding M_def by (simp add: unfinished_def same)
    qed
  qed
  have tc: "t \<notin> set (completed s)" "t \<notin> set (failed s)"
    using c y by (auto simp: consistent_def)
  have D: "\<forall>u \<in> set (completed s'). task_status s' u = Some Completed"
    using c tc x st by (auto simp: consistent_def coll same split: if_splits)
  have E: "\<forall>u \<in> set (failed s'). task_status s' u = Some Failed"
    using c tc x st by (auto simp: consistent_def coll same split: if_splits)
  have F: "\<forall>u. task_status s' u \<noteq> None \<longleftrightarrow> u < nextId s'"
    using c y by (auto simp: consistent_def same)
  show ?thesis
    unfolding consistent_def using h B C D E F by blast
qed

lemma step_release:
  assumes c: "consistent s" and k: "k < length (conts s)" and ck: "conts s ! k = (t, p)"
    and p: "\<not> in_flight p"
    and same: "queue s' = queue s" "completed s' = completed s"
      "failed s' = failed s" "nextId s' = nextId s" "\<And>u. task_status s' u = task_status s u"
    and a: "active s' = (if holds_slot p then remove1 t (active s) else active s)"
    and cs: "conts s' = (conts s)[k := (t, SleepFinal d)] \<or>
             conts s' = take k (conts s) @ drop (Suc k) (conts s)"
  shows "consistent s'"
proof (rule consistent_same_flights [OF c same])
  show "flights (conts s') = flights (conts s)"
    using cs p by (auto simp: flights_update [OF k] flights_nth [OF k ck] in_flight_def)
  have "mset (active s) = holders (conts s)" using c by (simp add: consistent_def)
  then show "mset (active s') = holders (conts s')"
    using cs by (auto simp: a holders_update [OF k] holders_nth [OF k ck] holds_slot_def)
qed

lemma admit_consistent:
  assumes c: "consistent s" and q: "queue s \<noteq> []"
  shows "consistent (admit s)"
proof -
  define t where "t = hd (queue s)"
  have mq: "mset (queue s) = add_mset t (mset (tl (queue s)))"
    using q unfolding t_def by (cases "queue s") simp_all
  have PF: "mset (queue (admit s)) + flights (conts (admit s)) = mset (queue s) + flights (conts s)"
    by (simp add: mq t_def [symmetric] in_flight_def)
  have "t \<in># mset (queue s) + flights (conts s)" by (simp add: mq)
  then have un: "unfinished s t" using c unfolding consistent_def by blast
  then obtain y where y: "tasks s t = Some y" "status y = Queued \<or> status y = Downloading"
    by (auto simp: unfinished_def task_status_def)
  have st: "\<And>u. task_status (admit s) u = (if u = t then Some Downloading else task_status s u)"
    by (simp add: task_status_def t_def [symmetric] y)
  have tc: "t \<notin> set (completed s)" "t \<notin> set (failed s)"
    using c y by (auto simp: consistent_def task_status_def)
  have A: "mset (active (admit s)) = holders (conts (admit s))"
    using c by (simp add: consistent_def holds_slot_def)
  have C: "\<forall>u. u \<in># mset (queue (admit s)) + flights (conts (admit s)) \<longleftrightarrow> unfinished (admit s) u"
    unfolding PF using c un by (auto simp: consistent_def unfinished_def st)
  have B: "\<forall>u. count (mset (queue (admit s)) + flights (conts (admit s))) u \<le> 1"
    unfolding PF using c by (simp add: consistent_def)
  have D: "\<forall>u \<in> set (completed (admit s)). task_status (admit s) u = Some Completed"
    using c tc by (auto simp: consistent_def st)
  have E: "\<forall>u \<in> set (failed (admit s)). task_status (admit s) u = Some Failed"
    using c tc by (auto simp: consistent_def st)
  have F: "\<forall>u. task_status (admit s) u \<noteq> None \<longleftrightarrow> u < nextId (admit s)"
    using c y by (auto simp: consistent_def st task_status_def)
  show ?thesis
    unfolding consistent_def using A B C D E F by blast
qed

lemma submit_consistent:
  assumes c: "consistent s"
    and same: "queue s' = queue s @ [nextId s]" "active s' = active s" "completed s' = completed s"
      "failed s' = failed s" "nextId s' = Suc (nextId s)" "conts s' = conts s"
      "\<And>u. task_status s' u = (if u = nextId s then Some Queued else task_status s u)"
  shows "consistent s'"
proof -
  define i where "i = nextId s"
  have none: "task_status s i = None"
    using c unfolding consistent_def i_def by (metis less_irrefl)
  then have nu: "\<not> unfinished s i" by (simp add: unfinished_def)
  then have ni: "i \<notin># mset (queue s) + flights (conts s)"
    using c unfolding consistent_def by blast
  have PF: "mset (queue s') + flights (conts s') = add_mset i (mset (queue s) + flights (conts s))"
    by (simp add: same i_def)
  have ic: "i \<notin> set (completed s)" "i \<notin> set (failed s)"
    using c none by (auto simp: consistent_def)
  have A: "mset (active s') = holders (conts s')"
    using c by (simp add: consistent_def same)
  have B: "\<forall>u. count (mset (queue s') + flights (conts s')) u \<le> 1"
  proof
    fix u
    have "count (mset (queue s) + flights (conts s)) u \<le> 1" using c by (simp add: consistent_def)
    moreover have "count (mset (queue s) + flights (conts s)) i = 0" using ni by (simp add: not_in_iff)
    ultimately show "count (mset (queue s') + flights (conts s')) u \<le> 1"
      unfolding PF by (cases "u = i") simp_all
  qed
  have C: "\<forall>u. u \<in># mset (queue s') + flights (conts s') \<longleftrightarrow> unfinished s' u"
  proof
    fix u
    have "u \<in># mset (queue s) + flights (conts s) \<longleftrightarrow> unfinished s u"
      using c unfolding consistent_def by blast
    then show "u \<in># mset (queue s') + flights (conts s') \<longleftrightarrow> unfinished s' u"
      unfolding PF by (cases "u = i") (simp_all add: unfinished_def same i_def [symmetric])
  qed
  have D: "\<forall>u \<in> set (completed s'). task_status s' u = Some Completed"
    using c ic by (auto simp: consistent_def same i_def [symmetric])
  have E: "\<forall>u \<in> set (failed s'). task_status s' u = Some Failed"
    using c ic by (auto simp: consistent_def same i_def [symmetric])
  have F: "\<forall>u. task_status s' u \<noteq> None \<longleftrightarrow> u < nextId s'"
    using c by (auto simp: consistent_def same less_Suc_eq)
  show ?thesis
    unfolding consistent_def using A B C D E F by blast
qed

text \<open>The invariant is kept by each resumption of a task invocation.\<close>

lemma handleTaskError_retry_consistent:
  assumes c: "consistent s" and k: "k < length (conts s)" and ck: "conts s ! k = (t, p)"
    and p: "in_flight p"
  shows "\<exists>s' p'. handleTaskError_retry t s = (s', Some p') \<and>
           consistent (s'\<lparr>conts := (conts s')[k := (t, p')]\<rparr>)"
proof (cases "of_int (task_attempts s t) < retryAttempts s")
  case True
  have "consistent (s\<lparr>conts := (conts s)[k := (t, SleepRetry (retry_sleep s t))]\<rparr>)"
    by (rule step_in_flight [OF c k ck p]) (simp_all add: in_flight_def)
  then show ?thesis using True by (simp add: handleTaskError_retry_def)
next
  case False
  define s' where "s' = fst (handleTaskError_retry t s)"
  have r: "handleTaskError_retry t s = (s', Some AwaitHandleTaskError)"
    using False by (simp add: handleTaskError_retry_def s'_def Let_def)
  have fl: "queue s' = queue s" "active s' = active s" "completed s' = completed s"
    "failed s' = failed s @ [t]" "nextId s' = nextId s" "conts s' = conts s"
    "\<And>u. task_status s' u = (if u = t then map_option (\<lambda>_. Failed) (task_status s t) else task_status s u)"
    using False by (simp_all add: handleTaskError_retry_def s'_def Let_def)
  have "consistent (s'\<lparr>conts := (conts s')[k := (t, AwaitHandleTaskError)]\<rparr>)"
  proof (rule step_terminal [OF c k ck p, where x = Failed])
    show "flights (conts (s'\<lparr>conts := (conts s')[k := (t, AwaitHandleTaskError)]\<rparr>)) + {#t#} =
          flights (conts s)"
      using p by (simp add: fl flights_update [OF k] flights_nth [OF k ck] in_flight_def)
    have "mset (active s) = holders (conts s)" using c by (simp add: consistent_def)
    then show "mset (active (s'\<lparr>conts := (conts s')[k := (t, AwaitHandleTaskError)]\<rparr>)) =
          holders (conts (s'\<lparr>conts := (conts s')[k := (t, AwaitHandleTaskError)]\<rparr>))"
      using in_flight_holds [OF p]
      by (simp add: fl holders_update [OF k] holders_nth [OF k ck] holds_slot_def)
  qed (simp_all add: fl)
  then show ?thesis using r by simp
qed

lemma handleTaskError_consistent:
  assumes c: "consistent s" and k: "k < length (conts s)" and ck: "conts s ! k = (t, p)"
    and p: "in_flight p"
  shows "\<exists>s' p'. handleTaskError t e s = (s', Some p') \<and>
           consistent (s'\<lparr>conts := (conts s')[k := (t, p')]\<rparr>)"
proof -
  define s1 where "s1 = upd_task t (\<lambda>k. k\<lparr>error := Some (message e)\<rparr>) s"
  have c1: "consistent s1" using c by (simp add: s1_def error_update_consistent)
  have k1: "k < length (conts s1)" "conts s1 ! k = (t, p)" using k ck by (simp_all add: s1_def)
  show ?thesis
  proof (cases "response_status e = Some 429")
    case True
    have "consistent (s1\<lparr>conts := (conts s1)[k := (t, SleepRateLimit (rateLimitBackoff s1))]\<rparr>)"
      by (rule step_in_flight [OF c1 k1 p]) (simp_all add: in_flight_def)
    then show ?thesis using True by (simp add: handleTaskError_def s1_def Let_def)
  next
    case False
    then show ?thesis
      using handleTaskError_retry_consistent [OF c1 k1 p]
      by (simp add: handleTaskError_def s1_def Let_def)
  qed
qed

lemma resume_cont_next:
  assumes "k < length (conts s)" "conts s ! k = (t, p)" "resume t p out s = (s', r)"
  shows "resume_cont k out s = s'\<lparr>conts := next_conts k t r (conts s')\<rparr>"
  using assms by (simp add: resume_cont_def next_conts_def split: option.splits)

lemma resume_conts [simp]: "conts (fst (resume t p out s)) = conts s"
  by (cases "(t, p, out, s)" rule: resume.cases) simp_all

lemma success_consistent:
  assumes c: "consistent s" and k: "k < length (conts s)" and ck: "conts s ! k = (t, p)"
    and p: "in_flight p" and r: "processTask_success t s = (s', r)"
  shows "consistent (s'\<lparr>conts := next_conts k t r (conts s')\<rparr>)"
proof -
  have fl: "queue s' = queue s" "active s' = remove1 t (active s)" "completed s' = completed s @ [t]"
    "failed s' = failed s" "nextId s' = nextId s" "conts s' = conts s"
    "\<And>u. task_status s' u = (if u = t then map_option (\<lambda>_. Completed) (task_status s t) else task_status s u)"
    and rr: "(\<exists>d. r = Some (SleepFinal d)) \<or> r = None"
    using r by (auto simp: processTask_success_def processTask_finally_def Let_def split: if_splits)
  show ?thesis
  proof (rule step_terminal [OF c k ck p, where x = Completed])
    show "flights (conts (s'\<lparr>conts := next_conts k t r (conts s')\<rparr>)) + {#t#} = flights (conts s)"
      using p rr
      by (auto simp: fl next_conts_def flights_update [OF k] flights_nth [OF k ck] in_flight_def)
    have "mset (active s) = holders (conts s)" using c by (simp add: consistent_def)
    then show "mset (active (s'\<lparr>conts := next_conts k t r (conts s')\<rparr>)) =
          holders (conts (s'\<lparr>conts := next_conts k t r (conts s')\<rparr>))"
      using in_flight_holds [OF p] rr
      by (auto simp: fl next_conts_def holders_update [OF k] holders_nth [OF k ck] holds_slot_def)
  qed (simp_all add: fl)
qed

lemma error_path_consistent:
  assumes c: "consistent s" and k: "k < length (conts s)" and ck: "conts s ! k = (t, p)"
    and p: "in_flight p" and r: "handleTaskError t e s = (s', r)"
  shows "consistent (s'\<lparr>conts := next_conts k t r (conts s')\<rparr>)"
  using handleTaskError_consistent [OF c k ck p, of e] r by (auto simp: next_conts_def)

lemma stay_consistent:
  assumes c: "consistent s" and k: "k < length (conts s)" and ck: "conts s ! k = (t, p)"
    and p: "in_flight p" "in_flight p'"
  shows "consistent (s\<lparr>conts := next_conts k t (Some p') (conts s)\<rparr>)"
  by (rule step_in_flight [OF c k ck p]) (simp_all add: next_conts_def)

lemma unshift_consistent:
  assumes c: "consistent s" and k: "k < length (conts s)" and ck: "conts s ! k = (t, p)"
    and p: "in_flight p"
  shows "consistent (s\<lparr>queue := t # queue s, conts := next_conts k t (Some AwaitHandleTaskError) (conts s)\<rparr>)"
  by (rule step_requeue [OF c k ck p]) (simp_all add: next_conts_def)

lemma finally_consistent:
  assumes c: "consistent s" and k: "k < length (conts s)" and ck: "conts s ! k = (t, AwaitHandleTaskError)"
    and r: "processTask_finally t s = (s', r)"
  shows "consistent (s'\<lparr>conts := next_conts k t r (conts s')\<rparr>)"
proof -
  have fl: "queue s' = queue s" "active s' = remove1 t (active s)" "completed s' = completed s"
    "failed s' = failed s" "nextId s' = nextId s" "conts s' = conts s"
    "\<And>u. task_status s' u = task_status s u"
    and rr: "(\<exists>d. r = Some (SleepFinal d)) \<or> r = None"
    using r by (auto simp: processTask_finally_def Let_def split: if_splits)
  obtain d where d: "r = Some (SleepFinal d) \<or> r = None" using rr by blast
  show ?thesis
    by (rule step_release [OF c k ck, where d = d])
       (use d in \<open>auto simp: fl next_conts_def in_flight_def holds_slot_def\<close>)
qed

lemma end_consistent:
  assumes c: "consistent s" and k: "k < length (conts s)" and ck: "conts s ! k = (t, SleepFinal d)"
  shows "consistent (s\<lparr>conts := next_conts k t None (conts s)\<rparr>)"
  by (rule step_release [OF c k ck, where d = d])
     (simp_all add: next_conts_def in_flight_def holds_slot_def)

lemma resume_consistent:
  assumes c: "consistent s" and k: "k < length (conts s)" and ck: "conts s ! k = (t, p)"
    and r: "resume t p out s = (s', r)"
  shows "consistent (s'\<lparr>conts := next_conts k t r (conts s')\<rparr>)"
proof (cases p)
  case AwaitContentInfo
  have p: "in_flight p" by (simp add: AwaitContentInfo in_flight_def)
  show ?thesis
  proof (cases out)
    case Resolved
    then show ?thesis
      using r stay_consistent [OF c k ck p, of AwaitTokenizedUrl]
      by (auto simp: AwaitContentInfo in_flight_def)
  next
    case (Rejected e)
    then show ?thesis
      using r error_path_consistent [OF c k ck p, of e s' r] by (simp add: AwaitContentInfo)
  qed
next
  case AwaitTokenizedUrl
  have p: "in_flight p" by (simp add: AwaitTokenizedUrl in_flight_def)
  show ?thesis
  proof (cases out)
    case Resolved
    then show ?thesis
      using r stay_consistent [OF c k ck p, of AwaitDownloadVideo]
      by (auto simp: AwaitTokenizedUrl in_flight_def)
  next
    case (Rejected e)
    then show ?thesis
      using r error_path_consistent [OF c k ck p, of e s' r] by (simp add: AwaitTokenizedUrl)
  qed
next
  case AwaitDownloadVideo
  have p: "in_flight p" by (simp add: AwaitDownloadVideo in_flight_def)
  show ?thesis
  proof (cases out)
    case Resolved
    then show ?thesis
      using r success_consistent [OF c k ck p, of s' r] by (simp add: AwaitDownloadVideo)
  next
    case (Rejected e)
    then show ?thesis
      using r error_path_consistent [OF c k ck p, of e s' r] by (simp add: AwaitDownloadVideo)
  qed
next
  case (SleepRateLimit d)
  have p: "in_flight p" by (simp add: SleepRateLimit in_flight_def)
  show ?thesis
  proof (cases "of_int (task_attempts s t) < retryAttempts s")
    case True
    then show ?thesis
      using r unshift_consistent [OF c k ck p]
      by (auto simp: SleepRateLimit handleTaskError_after_rateLimit_def)
  next
    case False
    then show ?thesis
      using r handleTaskError_retry_consistent [OF c k ck p]
      by (auto simp: SleepRateLimit handleTaskError_after_rateLimit_def next_conts_def)
  qed
next
  case (SleepRetry d)
  have p: "in_flight p" by (simp add: SleepRetry in_flight_def)
  show ?thesis
    using r unshift_consistent [OF c k ck p]
    by (auto simp: SleepRetry handleTaskError_after_retry_def)
next
  case AwaitHandleTaskError
  then show ?thesis
    using r finally_consistent [OF c k, of t s' r] ck by simp
next
  case (SleepFinal d)
  then show ?thesis
    using r end_consistent [OF c k, of t d] ck by auto
qed

lemma resume_cont_consistent: "consistent s \<Longrightarrow> consistent (resume_cont k out s)"
proof (cases "k < length (conts s)")
  case True
  assume c: "consistent s"
  obtain t p where ck: "conts s ! k = (t, p)" by (cases "conts s ! k")
  obtain s' r where r: "resume t p out s = (s', r)" by (cases "resume t p out s")
  show ?thesis
    using resume_consistent [OF c True ck r] by (simp add: resume_cont_next [OF True ck r])
next
  case False
  assume "consistent s"
  then show ?thesis using False by (simp add: resume_cont_def)
qed

text \<open>The invariant is kept by the scheduling loop and by every action.\<close>

lemma processQueue_consistent: "consistent s \<Longrightarrow> consistent (processQueue s)"
proof (rule processQueue_preserves [where P = consistent])
  fix s assume "consistent s"
  then show "consistent (finishQueue s)" by simp
next
  fix d s assume "consistent s"
  then show "consistent (sleep_loop d s)" by simp
next
  fix s assume "consistent s" "queue s \<noteq> []"
  then show "consistent (admit s)" by (rule admit_consistent)
qed

lemma start_consistent: "consistent s \<Longrightarrow> consistent (start s)"
  by (simp add: start_def processQueue_consistent)

lemma addDownload_consistent:
  assumes c: "consistent s" and a: "addDownload v cf s = Inr (s', i)"
  shows "consistent s'"
proof -
  define s4 where "s4 = emit (TaskAdded (nextId s))
     (s\<lparr>tasks := (tasks s)(nextId s \<mapsto> new_task (nextId s) cf), nextId := Suc (nextId s),
        queue := queue s @ [nextId s],
        stats := (stats s)\<lparr>totalQueued := totalQueued (stats s) + 1\<rparr>\<rparr>)"
  have c4: "consistent s4"
    by (rule submit_consistent [OF c]) (simp_all add: s4_def task_status_def new_task_def)
  have "s' = (if \<not> isRunning s4 then start s4 else s4)"
    using a by (auto simp: addDownload_def Let_def s4_def split: if_splits)
  then show ?thesis using c4 start_consistent by simp
qed

lemma fire_consistent: "consistent s \<Longrightarrow> consistent (fire v a s)"
proof (cases a)
  case (AddDownload cf)
  assume c: "consistent s"
  show ?thesis
  proof (cases "addDownload v cf s")
    case (Inl e)
    then show ?thesis using c by (simp add: AddDownload)
  next
    case (Inr x)
    obtain s' i where x: "x = (s', i)" by (cases x)
    show ?thesis
      using addDownload_consistent [OF c Inr [unfolded x]] by (simp add: AddDownload Inr x)
  qed
next
  case Start
  assume "consistent s"
  then show ?thesis by (simp add: Start start_consistent)
next
  case Stop
  assume "consistent s"
  then show ?thesis by (simp add: Stop stop_def)
next
  case Pause
  assume "consistent s"
  then show ?thesis by (simp add: Pause pause_def)
next
  case Resume
  assume "consistent s"
  then show ?thesis by (simp add: Resume resume_queue_def processQueue_consistent)
next
  case ClearHistory
  assume "consistent s"
  then show ?thesis
    by (simp add: ClearHistory clearHistory_def consistent_def unfinished_def task_status_def)
next
  case (WakeLoop k)
  assume "consistent s"
  then show ?thesis by (simp add: WakeLoop wake_loop_def processQueue_consistent)
next
  case (ResumeTask k out)
  assume "consistent s"
  then show ?thesis by (simp add: ResumeTask resume_cont_consistent)
qed

lemma constructor_consistent: "consistent (constructor opts)"
  by (simp add: consistent_def constructor_def unfinished_def task_status_def)

lemma run_consistent: "consistent (run v opts as)"
proof -
  have "consistent s \<Longrightarrow> consistent (foldl (\<lambda>s a. fire v a s) s as)" for s
    by (induction as arbitrary: s) (simp_all add: fire_consistent)
  then show ?thesis unfolding run_def using constructor_consistent by blast
qed

lemma consistent_discipline:
  assumes c: "consistent s"
  shows "(\<forall>t. unfinished s t \<longrightarrow> t \<in> set (queue s) \<or> t \<in> set (active s)) \<and>
         set (queue s) \<inter> set (completed s) = {} \<and>
         set (queue s) \<inter> set (failed s) = {} \<and>
         set (completed s) \<inter> set (failed s) = {} \<and>
         (\<forall>t. t \<in> set (active s) \<and> (t \<in> set (queue s) \<or> t \<in> set (completed s) \<or> t \<in> set (failed s))
              \<longrightarrow> (t, AwaitHandleTaskError) \<in> set (conts s)) \<and>
         (\<forall>t. t < nextId s \<longleftrightarrow> task_status s t \<noteq> None)"
proof -
  have A: "mset (active s) = holders (conts s)"
    and B: "\<And>t. count (mset (queue s) + flights (conts s)) t \<le> 1"
    and C: "\<And>t. t \<in># mset (queue s) + flights (conts s) \<longleftrightarrow> unfinished s t"
    and D: "\<And>t. t \<in> set (completed s) \<Longrightarrow> task_status s t = Some Completed"
    and E: "\<And>t. t \<in> set (failed s) \<Longrightarrow> task_status s t = Some Failed"
    and F: "\<And>t. task_status s t \<noteq> None \<longleftrightarrow> t < nextId s"
    using c unfolding consistent_def by blast+
  have fa: "\<And>t. t \<in># flights (conts s) \<Longrightarrow> t \<in> set (active s)"
  proof -
    fix t assume "t \<in># flights (conts s)"
    then have "count (flights (conts s)) t > 0" by simp
    then have "count (holders (conts s)) t > 0"
      using flights_le_holders [of "conts s" t] by linarith
    then have "t \<in># holders (conts s)" by simp
    then show "t \<in> set (active s)" unfolding A [symmetric] by simp
  qed
  have 1: "\<forall>t. unfinished s t \<longrightarrow> t \<in> set (queue s) \<or> t \<in> set (active s)"
    using C fa by auto
  have qu: "\<And>t. t \<in> set (queue s) \<Longrightarrow> unfinished s t"
  proof -
    fix t assume "t \<in> set (queue s)"
    then have "t \<in># mset (queue s) + flights (conts s)" by simp
    then show "unfinished s t" by (simp only: C)
  qed
  have 2: "set (queue s) \<inter> set (completed s) = {}"
    using qu D by (fastforce simp: unfinished_def)
  have 3: "set (queue s) \<inter> set (failed s) = {}"
    using qu E by (fastforce simp: unfinished_def)
  have 4: "set (completed s) \<inter> set (failed s) = {}"
    using D E by fastforce
  have 5: "\<forall>t. t \<in> set (active s) \<and> (t \<in> set (queue s) \<or> t \<in> set (completed s) \<or> t \<in> set (failed s))
              \<longrightarrow> (t, AwaitHandleTaskError) \<in> set (conts s)"
  proof (intro allI impI, rule ccontr)
    fix t
    assume h: "t \<in> set (active s) \<and> (t \<in> set (queue s) \<or> t \<in> set (completed s) \<or> t \<in> set (failed s))"
      and n: "(t, AwaitHandleTaskError) \<notin> set (conts s)"
    have "count (mset (active s)) t > 0" using h by simp
    then have fl: "count (flights (conts s)) t > 0"
      using holders_without_finishing [OF n] by (simp add: A)
    then have un: "unfinished s t" using C [of t] by simp
    have "t \<notin> set (queue s)"
    proof
      assume "t \<in> set (queue s)"
      then have q1: "1 \<le> count (mset (queue s)) t" by (simp add: Suc_le_eq)
      have f1: "1 \<le> count (flights (conts s)) t" using fl by linarith
      have "count (mset (queue s) + flights (conts s)) t =
            count (mset (queue s)) t + count (flights (conts s)) t" by simp
      then show False using q1 f1 B [of t] by linarith
    qed
    moreover have "t \<notin> set (completed s)" using D [of t] un by (auto simp: unfinished_def)
    moreover have "t \<notin> set (failed s)" using E [of t] un by (auto simp: unfinished_def)
    ultimately show False using h by blast
  qed
  have 6: "\<forall>t. t < nextId s \<longleftrightarrow> task_status s t \<noteq> None"
    using F by blast
  show ?thesis using 1 2 3 4 5 6 by blast
qed

lemmas eval_defs3 = eval_defs2 handleTaskError_after_retry_def err_500_def trace_fail_def
  trace_retry_def task_status_def unfinished_def

text \<open>
  Claim C9, as the code has it. At every observable instant every unfinished task is
  in the pending queue or in the active list; the pending queue, the completed log and
  the failed log are pairwise disjoint; a task is in the active list and in another
  collection at once only while an invocation of \<open>processTask\<close> for it is suspended
  at \<open>await this.handleTaskError(...)\<close>, its \<open>finally\<close> block still to run; and the
  tasks in the store are exactly the submitted ones.
\<close>

theorem collections_discipline:
  "(\<forall>t. unfinished (run v opts as) t \<longrightarrow>
        t \<in> set (queue (run v opts as)) \<or> t \<in> set (active (run v opts as))) \<and>
   set (queue (run v opts as)) \<inter> set (completed (run v opts as)) = {} \<and>
   set (queue (run v opts as)) \<inter> set (failed (run v opts as)) = {} \<and>
   set (completed (run v opts as)) \<inter> set (failed (run v opts as)) = {} \<and>
   (\<forall>t. t \<in> set (active (run v opts as)) \<and>
        (t \<in> set (queue (run v opts as)) \<or> t \<in> set (completed (run v opts as)) \<or>
         t \<in> set (failed (run v opts as)))
        \<longrightarrow> (t, AwaitHandleTaskError) \<in> set (conts (run v opts as))) \<and>
   (\<forall>t. t < nextId (run v opts as) \<longleftrightarrow> task_status (run v opts as) t \<noteq> None)"
  by (rule consistent_discipline [OF run_consistent])

text \<open>Witness for C9: after the retry sleep the task is pending and still active, and
  its invocation waits before its \<open>finally\<close> block.\<close>

theorem collections_discipline_witness:
  "unfinished (run (\<lambda>_. True) opts0 trace_retry) 0 \<and>
   0 \<in> set (active (run (\<lambda>_. True) opts0 trace_retry)) \<and>
   0 \<in> set (queue (run (\<lambda>_. True) opts0 trace_retry)) \<and>
   (0, AwaitHandleTaskError) \<in> set (conts (run (\<lambda>_. True) opts0 trace_retry)) \<and>
   0 < nextId (run (\<lambda>_. True) opts0 trace_retry)"
proof -
  have a: "0 \<in> set (active (run (\<lambda>_. True) opts0 trace_retry))"
    and q: "0 \<in> set (queue (run (\<lambda>_. True) opts0 trace_retry))"
    and u: "unfinished (run (\<lambda>_. True) opts0 trace_retry) 0"
    by (simp_all add: eval_defs3)
  have "(0, AwaitHandleTaskError) \<in> set (conts (run (\<lambda>_. True) opts0 trace_retry))"
    using collections_discipline [of "\<lambda>_. True" opts0 trace_retry] a q by blast
  moreover have "0 < nextId (run (\<lambda>_. True) opts0 trace_retry)"
    using collections_discipline [of "\<lambda>_. True" opts0 trace_retry] u
    by (auto simp: unfinished_def)
  ultimately show ?thesis using a q u by blast
qed

text \<open>Counterexample to C9 as stated: with a retry limit of 1 the failed task is in
  \<open>failed\<close> and in \<open>active\<close> when \<open>processTask\<close> is suspended at its
  \<open>await this.handleTaskError(...)\<close>; with the default limit the retried task is in the
  pending queue and in \<open>active\<close> at the same suspension point.\<close>

theorem one_collection_counterexample:
  "0 \<in> set (failed (run (\<lambda>_. True) (opts0\<lparr> opt_retryAttempts := Some 1 \<rparr>) trace_fail)) \<and>
   0 \<in> set (active (run (\<lambda>_. True) (opts0\<lparr> opt_retryAttempts := Some 1 \<rparr>) trace_fail)) \<and>
   conts (run (\<lambda>_. True) (opts0\<lparr> opt_retryAttempts := Some 1 \<rparr>) trace_fail) =
     [(0, AwaitHandleTaskError)] \<and>
   0 \<in> set (queue (run (\<lambda>_. True) opts0 trace_retry)) \<and>
   0 \<in> set (active (run (\<lambda>_. True) opts0 trace_retry)) \<and>
   conts (run (\<lambda>_. True) opts0 trace_retry) = [(0, AwaitHandleTaskError)]"
  by (simp add: eval_defs3)

section \<open>Properties of the ffmpeg command\<close>

subsection \<open>Printing numbers and splitting selectors\<close>

lemma digit_in: "d < 10 \<Longrightarrow> digit d \<in> set ''0123456789''"
  unfolding digit_def by (rule nth_mem) simp

lemma dec_digits: "set (dec n) \<subseteq> set ''0123456789''"
proof (induction n rule: dec.induct)
  case (1 n)
  show ?case
  proof (cases "n < 10")
    case True
    then show ?thesis using digit_in [of n] by (subst dec.simps) simp
  next
    case False
    have "n mod 10 < 10" by simp
    then have "digit (n mod 10) \<in> set ''0123456789''" by (rule digit_in)
    then show ?thesis using 1 False by (subst dec.simps) simp
  qed
qed

lemma dec_not_letter: "CHR ''a'' \<notin> set (dec n)" "CHR ''v'' \<notin> set (dec n)"
  using dec_digits [of n] by auto

lemma dec_no_special [simp]:
  "CHR ''%'' \<notin> set (dec n)" "CHR '':'' \<notin> set (dec n)"
  "dec n \<noteq> ''a''" "dec n \<noteq> ''v''" "''a'' \<noteq> dec n" "''v'' \<noteq> dec n"
proof -
  show "CHR ''%'' \<notin> set (dec n)" "CHR '':'' \<notin> set (dec n)"
    using dec_digits [of n] by auto
  have a: "dec n = ''a'' \<Longrightarrow> CHR ''a'' \<in> set (dec n)" by simp
  have v: "dec n = ''v'' \<Longrightarrow> CHR ''v'' \<in> set (dec n)" by simp
  show "dec n \<noteq> ''a''" using a dec_not_letter(1) by blast
  then show "''a'' \<noteq> dec n" by (rule not_sym)
  show "dec n \<noteq> ''v''" using v dec_not_letter(2) by blast
  then show "''v'' \<noteq> dec n" by (rule not_sym)
qed

lemma util_format_skip: "CHR ''%'' \<noteq> c \<Longrightarrow> util_format (c # cs) n = c # util_format cs n"
  by (cases cs) auto

lemma util_format_prefix:
  "CHR ''%'' \<notin> set xs \<Longrightarrow> util_format (xs @ ys) n = xs @ util_format ys n"
  by (induction xs) (simp_all add: util_format_skip)

lemma split_on_nonempty [simp]: "split_on c xs \<noteq> []"
  by (induction xs) (auto split: list.splits)

lemma split_on_field:
  "c \<notin> set xs \<Longrightarrow> split_on c (xs @ c # ys) = xs # split_on c ys"
  by (induction xs) (auto split: list.splits)

lemma split_on_last: "c \<notin> set xs \<Longrightarrow> split_on c xs = [xs]"
  by (induction xs) (auto split: list.splits)

lemma fields_video:
  "split_on CHR '':'' (videoSelectString True n) = [''0'', ''v'', ''m'', ''id'', dec n]"
  "split_on CHR '':'' (videoSelectString False n) = [''0'', ''p'', dec n, ''v'']"
  "split_on CHR '':'' (intlVideoSelectString True n) = [''1'', ''v'', ''m'', ''id'', dec n]"
  "split_on CHR '':'' (intlVideoSelectString False n) = [''1'', ''p'', dec n, ''v'']"
  by (simp_all add: videoSelectString_def intlVideoSelectString_def split_on_last split_on_field)

lemma fields_audio:
  "split_on CHR '':'' (audioSelectString True n) = [''0'', ''a'']"
  "split_on CHR '':'' (audioSelectString False n) = [''0'', ''p'', dec n, ''a'']"
  "split_on CHR '':'' (intlAudioSelectString True n k) = [''1'', ''a'', ''m'', ''id'', dec k]"
  "split_on CHR '':'' (intlAudioSelectString False n k) = [''1'', ''p'', dec n, ''a'', dec k]"
  by (simp_all add: audioSelectString_def intlAudioSelectString_def split_on_last split_on_field
      util_format_prefix util_format_skip)

lemma directive_of_selectors [simp]:
  "directive_of (videoSelectString d n) = PrimaryVideo"
  "directive_of (audioSelectString d n) = PrimaryAudio"
  "directive_of (intlVideoSelectString d n) = SecondaryVideo"
  "directive_of (intlAudioSelectString d n m) = SecondaryAudio"
  by (cases d; simp add: directive_of_def input_index_def selects_video_def selects_audio_def
      fields_video fields_audio)+

lemma selects_audio_selectors [simp]:
  "\<not> selects_audio (videoSelectString d n)"
  "selects_audio (audioSelectString d n)"
  "\<not> selects_audio (intlVideoSelectString d n)"
  "selects_audio (intlAudioSelectString d n m)"
  by (cases d; simp add: selects_audio_def fields_video fields_audio)+

lemma selector_head:
  "\<exists>r. videoSelectString d n = CHR ''0'' # r"
  "\<exists>r. audioSelectString d n = CHR ''0'' # r"
  "\<exists>r. intlVideoSelectString d n = CHR ''1'' # r"
  "\<exists>r. intlAudioSelectString d n m = CHR ''1'' # r"
  by (cases d; simp add: videoSelectString_def audioSelectString_def intlVideoSelectString_def
      intlAudioSelectString_def util_format_skip)+

lemma selector_not_option [simp]:
  "videoSelectString d n \<noteq> CHR ''-'' # r"
  "audioSelectString d n \<noteq> CHR ''-'' # r"
  "intlVideoSelectString d n \<noteq> CHR ''-'' # r"
  "intlAudioSelectString d n m \<noteq> CHR ''-'' # r"
  using selector_head(1) [of d n] selector_head(2) [of d n] selector_head(3) [of d n]
    selector_head(4) [of d n m] by auto

subsection \<open>The two shapes of the command\<close>

lemma map_args_intl:
  "map_args (output_options fmt vs [''-map'', a, ''-map'', b, ''-map'', c] (intl_codec lang)) = [vs, a, b, c]"
  by (simp add: output_options_def intl_codec_def)

lemma map_args_plain:
  "map_args (output_options fmt vs [''-map'', a] [''-c:a'', ''copy'']) = [vs, a]"
  by (simp add: output_options_def)


lemma downloadVideo_intl:
  assumes "internationalAudio k = Some lang" and "downloadVideo k u True gp iu = Inr cmd"
  shows "\<exists>pl iurl il.
           gp u (audioStream k) (videoSize k) = Inr pl \<and> iu = Inr iurl \<and>
           gp iurl lang ''480x270'' = Inr il \<and>
           inputs cmd = [(u, inputOptions), (iurl, inputOptions @ [''-itsoffset'', itsoffset k])] \<and>
           outputOptions cmd =
             output_options (format k)
               (videoSelectString (\<not> has_substring ''m3u8'' u) (videoId pl))
               [''-map'', intlVideoSelectString (\<not> has_substring ''m3u8'' u) (videoId il),
                ''-map'', audioSelectString (\<not> has_substring ''m3u8'' u) (videoId pl),
                ''-map'', intlAudioSelectString (\<not> has_substring ''m3u8'' u) (videoId pl) (audioId il)]
               (intl_codec lang)"
  using assms
  by (auto simp: downloadVideo_def Let_def intl_codec_def split: sum.splits)

lemma downloadVideo_plain:
  assumes "internationalAudio k = None \<or> \<not> race" and "downloadVideo k u race gp iu = Inr cmd"
  shows "\<exists>pl.
           gp u (audioStream k) (videoSize k) = Inr pl \<and>
           inputs cmd = [(u, inputOptions)] \<and>
           outputOptions cmd =
             output_options (format k)
               (videoSelectString (\<not> has_substring ''m3u8'' u) (videoId pl))
               [''-map'', audioSelectString (\<not> has_substring ''m3u8'' u) (videoId pl)]
               [''-c:a'', ''copy'']"
  using assms
  by (auto simp: downloadVideo_def Let_def split: sum.splits)

lemmas cmd_eval = downloadVideo_def k0_def gp0_def new_task_def cfg0_def js_or_str_def Let_def
  starts_with_def videoSelectString_def audioSelectString_def intlVideoSelectString_def
  intlAudioSelectString_def output_options_def intlLangId_def dec.simps digit_def

lemmas sel_eval = directive_of_def input_index_def selects_audio_def selects_video_def

lemma run_intl: "downloadVideo k0 ''s.m3u8'' True gp0 (Inr ''i.m3u8'') = Inr cmd_intl"
  by (simp add: cmd_eval cmd_intl_def)

lemma run_plain: "downloadVideo k0 ''s.m3u8'' False gp0 (Inr ''i.m3u8'') = Inr cmd_plain"
  by (simp add: cmd_eval cmd_plain_def)

text \<open>
  Claim C6, as the code has it. A request for international audio on content that is
  not a race is ignored: \<open>downloadVideo\<close> builds the command it builds without the
  request, and it rejects exactly when resolving the primary tracks rejects.
\<close>

theorem international_audio_ignored:
  "downloadVideo k u False gp iu = downloadVideo (k\<lparr> internationalAudio := None \<rparr>) u False gp iu \<and>
   isl (downloadVideo k u False gp iu) = isl (gp u (audioStream k) (videoSize k))"
  by (simp add: downloadVideo_def Let_def split: sum.splits)

text \<open>Counterexample to C6 as stated: Dutch commentary is requested for content that
  is not a race, and a command with one input is built; nothing is rejected.\<close>

theorem unsupported_content_counterexample:
  "internationalAudio k0 = Some ''nld'' \<and>
   downloadVideo k0 ''s.m3u8'' False gp0 (Inr ''i.m3u8'') = Inr cmd_plain"
  using run_plain by (simp add: k0_def new_task_def cfg0_def)

text \<open>
  Claim C7, as the code has it. In every command that maps a secondary audio track, the
  map directives are, in this order: primary video, secondary video, primary audio,
  secondary audio, for DASH and HLS alike.
\<close>

theorem map_directive_order:
  assumes "downloadVideo k u race gp iu = Inr cmd"
    and "SecondaryAudio \<in> set (map directive_of (map_args (outputOptions cmd)))"
  shows "map directive_of (map_args (outputOptions cmd)) =
           [PrimaryVideo, SecondaryVideo, PrimaryAudio, SecondaryAudio]"
proof (cases "internationalAudio k = None \<or> \<not> race")
  case True
  obtain pl :: stream_ids where
    "outputOptions cmd =
             output_options (format k)
               (videoSelectString (\<not> has_substring ''m3u8'' u) (videoId pl))
               [''-map'', audioSelectString (\<not> has_substring ''m3u8'' u) (videoId pl)]
               [''-c:a'', ''copy'']"
    using downloadVideo_plain [OF True assms(1)] by blast
  then have "map directive_of (map_args (outputOptions cmd)) = [PrimaryVideo, PrimaryAudio]"
    by (simp add: map_args_plain)
  then show ?thesis using assms(2) by simp
next
  case False
  then obtain lang where lang: "internationalAudio k = Some lang" by auto
  have dv: "downloadVideo k u True gp iu = Inr cmd" using assms False by simp
  obtain pl :: stream_ids and iurl and il :: stream_ids where
    oo: "outputOptions cmd =
             output_options (format k)
               (videoSelectString (\<not> has_substring ''m3u8'' u) (videoId pl))
               [''-map'', intlVideoSelectString (\<not> has_substring ''m3u8'' u) (videoId il),
                ''-map'', audioSelectString (\<not> has_substring ''m3u8'' u) (videoId pl),
                ''-map'', intlAudioSelectString (\<not> has_substring ''m3u8'' u) (videoId pl) (audioId il)]
               (intl_codec lang)"
    using downloadVideo_intl [OF lang dv] by blast
  show ?thesis unfolding oo by (simp add: map_args_intl)
qed

text \<open>Witness for C7.\<close>

theorem map_directive_order_witness:
  "downloadVideo k0 ''s.m3u8'' True gp0 (Inr ''i.m3u8'') = Inr cmd_intl \<and>
   SecondaryAudio \<in> set (map directive_of (map_args (outputOptions cmd_intl))) \<and>
   map directive_of (map_args (outputOptions cmd_intl)) =
     [PrimaryVideo, SecondaryVideo, PrimaryAudio, SecondaryAudio]"
proof -
  have 1: "SecondaryAudio \<in> set (map directive_of (map_args (outputOptions cmd_intl)))"
    by (simp add: cmd_intl_def sel_eval)
  show ?thesis
    using run_intl 1 map_directive_order [OF run_intl 1] by simp
qed

text \<open>Counterexample to C7 as stated: the secondary video is mapped second, before
  the primary audio.\<close>

theorem map_order_counterexample:
  "downloadVideo k0 ''s.m3u8'' True gp0 (Inr ''i.m3u8'') = Inr cmd_intl \<and>
   map_args (outputOptions cmd_intl) = [''0:p:5:v'', ''1:p:7:v'', ''0:p:5:a'', ''1:p:5:a:2''] \<and>
   map directive_of (map_args (outputOptions cmd_intl)) =
     [PrimaryVideo, SecondaryVideo, PrimaryAudio, SecondaryAudio] \<and>
   map directive_of (map_args (outputOptions cmd_intl)) \<noteq>
     [PrimaryVideo, PrimaryAudio, SecondaryVideo, SecondaryAudio] \<and>
   map directive_of (map_args (outputOptions cmd_intl)) \<noteq>
     [PrimaryVideo, PrimaryAudio, SecondaryAudio]"
  using run_intl by (simp add: cmd_intl_def sel_eval)




section \<open>Properties of the token manager\<close>

subsection \<open>The login loop and the list of candidates\<close>

lemma find_append:
  "find P (xs @ ys) = (case find P xs of None \<Rightarrow> find P ys | Some x \<Rightarrow> Some x)"
  by (induction xs) auto

lemma find_offer:
  "find (\<lambda>(site, tok). validateToken w site tok) (offer site v) =
     (if truthy v \<and> validateToken w site (the v) then Some (site, the v) else None)"
  by (simp add: offer_def)

lemma login_loop_find:
  "fst (login_loop r w a st) =
     (case find (\<lambda>(site, tok). validateToken w site tok) (concat (map (login_offer w) [a ..< a + r])) of
        None \<Rightarrow> Inl AllStrategiesFailed
      | Some (site, tok) \<Rightarrow> Inr tok)"
proof (induction r arbitrary: a st)
  case 0
  then show ?case by simp
next
  case (Suc r)
  have up: "[a ..< a + Suc r] = a # [Suc a ..< Suc a + r]"
    by (simp add: upt_rec)
  show ?case
    unfolding up
    by (cases "getF1tvToken w a")
      (auto simp: Suc.IH login_offer_def offer_def split: option.splits)
qed

lemma login_loop_3:
  "fst (login_loop maxRetries w 1 st) =
     (case find (\<lambda>(site, tok). validateToken w site tok)
             (login_offer w 1 @ login_offer w 2 @ login_offer w 3) of
        None \<Rightarrow> Inl AllStrategiesFailed
      | Some (site, tok) \<Rightarrow> Inr tok)"
proof -
  have "[1 ..< 1 + maxRetries] = [1, 2, 3]"
    by (simp add: maxRetries_def upt_rec)
  then show ?thesis
    using login_loop_find [of maxRetries w 1 st] by simp
qed

lemma getValidToken_result:
  "fst (getValidToken w user pass st) =
     (case spec_accepted w user pass st of
        None \<Rightarrow> Inl AllStrategiesFailed
      | Some (site, tok) \<Rightarrow> Inr tok)"
proof -
  define L where "L = login_offer w 1 @ login_offer w 2 @ login_offer w 3"
  have a: "fst (login_loop maxRetries w (Suc 0) st) =
     (case find (\<lambda>(site, tok). validateToken w site tok) L of
        None \<Rightarrow> Inl AllStrategiesFailed
      | Some (site, tok) \<Rightarrow> Inr tok)"
    unfolding L_def using login_loop_3 [of w st] by simp
  have b: "spec_candidates w user pass st =
     offer Cache (loadTokenFromCache (tokenCache st) (now w))
     @ offer BrowserAutoExtract
         (case autoExtractF1TVCookies w of Throws \<Rightarrow> None | Returns a \<Rightarrow> a)
     @ offer ManualCookieFile (loadManualCookie w)
     @ (if truthy user \<and> truthy pass then L else [])"
    by (simp add: spec_candidates_def L_def)
  show ?thesis
    unfolding getValidToken_def spec_accepted_def b Let_def
    by (simp add: a find_append find_offer)
qed

lemma tokenCache_save:
  "tokenCache (saveTokenToCache w tok src st) =
     (if cacheWritable w
      then Parsed \<lparr> token = tok, source = src, timestamp = saveTime w,
                     expires = extractTokenExpiry w tok \<rparr>
      else tokenCache st)"
  by (simp add: saveTokenToCache_def)

lemma login_loop_cache:
  "tokenCache (snd (login_loop r w a st)) =
     (case find (\<lambda>(site, tok). validateToken w site tok) (concat (map (login_offer w) [a ..< a + r])) of
        None \<Rightarrow> tokenCache st
      | Some (site, tok) \<Rightarrow>
          if cacheWritable w
          then Parsed \<lparr> token = tok, source = ''automated-login'', timestamp = saveTime w,
                         expires = extractTokenExpiry w tok \<rparr>
          else tokenCache st)"
proof (induction r arbitrary: a st)
  case 0
  then show ?case by simp
next
  case (Suc r)
  have up: "[a ..< a + Suc r] = a # [Suc a ..< Suc a + r]"
    by (simp add: upt_rec)
  show ?case
    unfolding up
    by (cases "getF1tvToken w a")
      (auto simp: Suc.IH login_offer_def offer_def tokenCache_save split: option.splits)
qed

lemma find_login_site:
  "find (\<lambda>(site, tok). validateToken w site tok) (concat (map (login_offer w) as)) = Some (site, tok)
   \<Longrightarrow> \<exists>n. site = AutomatedLogin n"
  by (induction as) (auto simp: login_offer_def offer_def split: js_result.splits if_splits)

lemma spec_accepted_cache_cong:
  assumes "loadTokenFromCache (tokenCache st) (now w) = loadTokenFromCache (tokenCache st') (now w)"
  shows "spec_accepted w user pass st = spec_accepted w user pass st'"
  using assms by (simp add: spec_accepted_def spec_candidates_def)

text \<open>
  Claim C2, as the code has it. \<open>getValidToken\<close> returns the first candidate, in the
  order cache, browser extraction, manual cookie file, automated login, that passes
  \<open>validateToken\<close>, and throws exactly when no candidate passes. A credential accepted
  from the cache leaves the cache file alone; any other accepted credential is written
  to the cache file under the tag of its strategy, unless the write fails, in which
  case the file stays as it was and the credential is returned all the same.
\<close>

theorem getValidToken_refines:
  "fst (getValidToken w user pass st) =
     (case spec_accepted w user pass st of
        None \<Rightarrow> Inl AllStrategiesFailed
      | Some (site, tok) \<Rightarrow> Inr tok) \<and>
   tokenCache (snd (getValidToken w user pass st)) =
     (case spec_accepted w user pass st of
        None \<Rightarrow> tokenCache st
      | Some (site, tok) \<Rightarrow>
          if site = Cache \<or> \<not> cacheWritable w then tokenCache st
          else Parsed \<lparr> token = tok, source = source_tag site, timestamp = saveTime w,
                         expires = extractTokenExpiry w tok \<rparr>) \<and>
   (case spec_accepted w user pass st of
      None \<Rightarrow> \<not> list_ex (\<lambda>(site, tok). validateToken w site tok) (spec_candidates w user pass st)
    | Some (site, tok) \<Rightarrow>
        validateToken w site tok \<and> (site, tok) \<in> set (spec_candidates w user pass st))"
proof -
  define V where "V = (\<lambda>(site, tok). validateToken w site tok)"
  define L where "L = login_offer w 1 @ login_offer w 2 @ login_offer w 3"
  have up: "[1 ..< 1 + maxRetries] = [1, 2, 3]"
    by (simp add: maxRetries_def upt_rec)
  have L: "concat (map (login_offer w) [1 ..< 1 + maxRetries]) = L"
    unfolding up L_def by simp
  have a: "tokenCache (snd (login_loop maxRetries w (Suc 0) st)) =
     (case find V L of
        None \<Rightarrow> tokenCache st
      | Some (site, tok) \<Rightarrow>
          if site = Cache \<or> \<not> cacheWritable w then tokenCache st
          else Parsed \<lparr> token = tok, source = source_tag site, timestamp = saveTime w,
                         expires = extractTokenExpiry w tok \<rparr>)"
  proof (cases "find V L")
    case None
    then show ?thesis
      using login_loop_cache [of maxRetries w 1 st] unfolding L V_def by simp
  next
    case (Some c)
    obtain site tok where c: "c = (site, tok)" by (cases c)
    obtain n where n: "site = AutomatedLogin n"
      using find_login_site [of w "[1 ..< 1 + maxRetries]" site tok] Some
      unfolding L V_def c by blast
    show ?thesis
      using login_loop_cache [of maxRetries w 1 st] Some
      unfolding L V_def c n by (simp add: source_tag_def)
  qed
  have b: "spec_candidates w user pass st =
     offer Cache (loadTokenFromCache (tokenCache st) (now w))
     @ offer BrowserAutoExtract
         (case autoExtractF1TVCookies w of Throws \<Rightarrow> None | Returns a \<Rightarrow> a)
     @ offer ManualCookieFile (loadManualCookie w)
     @ (if truthy user \<and> truthy pass then L else [])"
    by (simp add: spec_candidates_def L_def)
  have 1: "tokenCache (snd (getValidToken w user pass st)) =
     (case spec_accepted w user pass st of
        None \<Rightarrow> tokenCache st
      | Some (site, tok) \<Rightarrow>
          if site = Cache \<or> \<not> cacheWritable w then tokenCache st
          else Parsed \<lparr> token = tok, source = source_tag site, timestamp = saveTime w,
                         expires = extractTokenExpiry w tok \<rparr>)"
    unfolding getValidToken_def spec_accepted_def b Let_def V_def [symmetric]
    by (simp add: a find_append find_offer [of w, folded V_def] tokenCache_save source_tag_def)
  have 2: "(case spec_accepted w user pass st of
      None \<Rightarrow> \<not> list_ex V (spec_candidates w user pass st)
    | Some (site, tok) \<Rightarrow>
        validateToken w site tok \<and> (site, tok) \<in> set (spec_candidates w user pass st))"
  proof (cases "spec_accepted w user pass st")
    case None
    have "\<not> list_ex V (spec_candidates w user pass st)"
      using None by (auto simp: spec_accepted_def V_def find_None_iff list_ex_iff)
    then show ?thesis by (simp add: None)
  next
    case (Some c)
    obtain site tok where c: "c = (site, tok)" by (cases c)
    have "validateToken w site tok \<and> (site, tok) \<in> set (spec_candidates w user pass st)"
      using Some unfolding c spec_accepted_def
      by (auto simp: find_Some_iff) (metis nth_mem)
    then show ?thesis by (simp add: Some c)
  qed
  show ?thesis
    using getValidToken_result [of w user pass st] 1 2 unfolding V_def by simp
qed

text \<open>Counterexample to C2 as stated: the cache file cannot be written; the credential
  of the manual cookie file is accepted and returned, and nothing is persisted.\<close>

theorem persisted_counterexample:
  "fst (getValidToken w0 None None st0) = Inr ''good'' \<and>
   spec_accepted w0 None None st0 = Some (ManualCookieFile, ''good'') \<and>
   tokenCache (snd (getValidToken w0 None None st0)) = NoFile"
  by (simp add: getValidToken_def w0_def st0_def loadTokenFromCache_def truthy_def
      validateToken_def loadManualCookie_def saveTokenToCache_def spec_accepted_def
      spec_candidates_def offer_def)

subsection \<open>What the cache file holds\<close>

lemma extractTokenExpiry_nonzero: "extractTokenExpiry w tok \<noteq> Some 0"
  by (simp add: extractTokenExpiry_def split: option.splits)

lemma saveTokenToCache_saved:
  "saved_cache (tokenCache st) \<Longrightarrow> saved_cache (tokenCache (saveTokenToCache w tok src st))"
  by (simp add: saveTokenToCache_def saved_cache_def saved_record_def extractTokenExpiry_nonzero)

lemma login_loop_saved:
  "saved_cache (tokenCache st) \<Longrightarrow> saved_cache (tokenCache (snd (login_loop r w a st)))"
proof (induction r arbitrary: a st)
  case 0
  then show ?case by simp
next
  case (Suc r)
  show ?case
  proof (cases "getF1tvToken w a")
    case Throws
    then show ?thesis using Suc.prems by (auto intro!: Suc.IH)
  next
    case (Returns v)
    then show ?thesis
      using Suc.prems Suc.IH [OF Suc.prems] by (simp add: saveTokenToCache_saved)
  qed
qed

lemma getValidToken_saved:
  "saved_cache (tokenCache st) \<Longrightarrow> saved_cache (tokenCache (snd (getValidToken w user pass st)))"
  by (simp add: getValidToken_def Let_def saveTokenToCache_saved login_loop_saved)

text \<open>
  Claim C5. A cache record written by the program is rejected by \<open>loadTokenFromCache\<close>
  whenever its expiry lies less than five minutes after the current time, or its
  timestamp is more than 24 hours old; \<open>getValidToken\<close> then returns what it returns
  with no cache file at all, that is, it goes on to the next strategy. Whatever
  \<open>getValidToken\<close> leaves in the cache file is again a record as the program writes it.
\<close>

theorem cache_rejected:
  assumes "tokenCache st = Parsed d"
    and "saved_record d"
    and "(\<exists>e. expires d = Some e \<and> e * 1000 < now w + 300000)
         \<or> now w - timestamp d > 24 * 60 * 60 * 1000"
  shows "loadTokenFromCache (tokenCache st) (now w) = None \<and>
         fst (getValidToken w user pass st) =
           fst (getValidToken w user pass (st\<lparr> tokenCache := NoFile \<rparr>)) \<and>
         saved_cache (tokenCache (snd (getValidToken w user pass st)))"
proof -
  have 1: "loadTokenFromCache (tokenCache st) (now w) = None"
    using assms by (auto simp: loadTokenFromCache_def saved_record_def)
  have 2: "loadTokenFromCache (tokenCache (st\<lparr> tokenCache := NoFile \<rparr>)) (now w) = None"
    by (simp add: loadTokenFromCache_def)
  have 3: "spec_accepted w user pass st = spec_accepted w user pass (st\<lparr> tokenCache := NoFile \<rparr>)"
    by (rule spec_accepted_cache_cong) (simp only: 1 2)
  have "saved_cache (tokenCache st)"
    using assms by (simp add: saved_cache_def)
  then have 4: "saved_cache (tokenCache (snd (getValidToken w user pass st)))"
    by (rule getValidToken_saved)
  show ?thesis
    using 1 3 4 by (simp add: getValidToken_result)
qed

text \<open>Witness for C5: the record \<open>saveTokenToCache\<close> writes for a token that expires in
  200 seconds is rejected, and the valid cached credential is passed over for the one
  of the manual cookie file.\<close>

theorem cache_rejected_witness:
  "tokenCache (saveTokenToCache w_save ''cached'' ''manual-cookie-file'' st0) = Parsed d_soon \<and>
   saved_record d_soon \<and>
   expires d_soon = Some 1700000200 \<and> (1700000200::int) * 1000 < now w0 + 300000 \<and>
   loadTokenFromCache (Parsed d_soon) (now w0) = None \<and>
   validateToken w0 Cache (token d_soon) \<and>
   fst (getValidToken w0 None None (st0\<lparr> tokenCache := Parsed d_soon \<rparr>)) = Inr ''good'' \<and>
   fst (getValidToken w0 None None (st0\<lparr> tokenCache := NoFile \<rparr>)) = Inr ''good''"
  using cache_rejected [of "st0\<lparr> tokenCache := Parsed d_soon \<rparr>" d_soon w0 None None]
  by (simp add: getValidToken_def w0_def w_save_def st0_def d_soon_def loadTokenFromCache_def
      truthy_def validateToken_def loadManualCookie_def saveTokenToCache_def saved_record_def
      extractTokenExpiry_def)

end
